theory Spec2Isabelle
  imports Complex_Main "HOL-Library.AList"
begin

text \<open>
  A shallow embedding of the schedulers of the task-offloading repository: the FCFS
  list scheduler (\<open>First_come_first_server.py\<close>), the HEFT rank scheduler (\<open>heft.py\<close>)
  and the QIPSO optimizer with its critical-path analysis and schedule evaluation
  (\<open>QIPSO.py\<close>).  Every function is a HOL function of the same name; a Python exception
  is a value \<open>Inl e\<close> of the result, dictionaries are maps or association lists, and
  objects that a function mutates are returned by it.
\<close>

section \<open>Data model\<close>

text \<open>
  The schedulers work on a networkx \<open>DiGraph\<close> whose nodes are tasks carrying the optional
  attributes \<open>exec_time\<close> and \<open>comp_cost\<close> and whose edges carry an optional \<open>comm_cost\<close>.
  A graph is kept as the list of its nodes (in insertion order, with their attribute
  dictionaries) and the list of its edges (in insertion order).  Attribute values are
  numbers; Python floats are modelled as exact reals, and an attribute that is absent
  from the dictionary is \<open>None\<close>.
\<close>

type_synonym task = string

record node_attrs =
  exec_time :: "real option"
  comp_cost :: "real option"

record graph =
  g_nodes :: "(task \<times> node_attrs) list"
  g_edges :: "(task \<times> task \<times> real option) list"

datatype error =
    TypeError
  | ValueError string
  | ZeroDivisionError
  | KeyError
  | IndexError
  | NetworkXUnfeasible
  | RuntimeError
  | RecursionError

definition bnd :: "error + 'a \<Rightarrow> ('a \<Rightarrow> error + 'b) \<Rightarrow> error + 'b" where
  "bnd m f = (case m of Inl e \<Rightarrow> Inl e | Inr x \<Rightarrow> f x)"

definition lookup :: "('k \<rightharpoonup> 'v) \<Rightarrow> 'k \<Rightarrow> error + 'v" where
  "lookup m k = (case m k of None \<Rightarrow> Inl KeyError | Some v \<Rightarrow> Inr v)"

definition task_names :: "graph \<Rightarrow> task list" where
  "task_names G = map fst (g_nodes G)"

text \<open>\<open>G.nodes[task]\<close>: the attribute dictionary of a node, \<open>KeyError\<close> for a non-node.\<close>

definition node_data :: "graph \<Rightarrow> task \<Rightarrow> error + node_attrs" where
  "node_data G t = lookup (map_of (g_nodes G)) t"

definition successors :: "graph \<Rightarrow> task \<Rightarrow> task list" where
  "successors G u = map (\<lambda>(a, b, c). b) (filter (\<lambda>(a, b, c). a = u) (g_edges G))"

definition predecessors :: "graph \<Rightarrow> task \<Rightarrow> task list" where
  "predecessors G v = map (\<lambda>(a, b, c). a) (filter (\<lambda>(a, b, c). b = v) (g_edges G))"

text \<open>
  The representation invariant of a \<open>DiGraph\<close>: node names are unique, every edge joins
  two nodes, and there is at most one edge per ordered pair.
\<close>

definition wf_graph :: "graph \<Rightarrow> bool" where
  "wf_graph G \<longleftrightarrow>
     distinct (task_names G) \<and>
     distinct (map (\<lambda>(a, b, c). (a, b)) (g_edges G)) \<and>
     (\<forall>e \<in> set (g_edges G). fst e \<in> set (task_names G) \<and> fst (snd e) \<in> set (task_names G))"

section \<open>The graph library: topological order\<close>

text \<open>
  \<open>nx.topological_sort\<close> (networkx 2.6 and later, where it iterates over
  \<open>topological_generations\<close>) is Kahn's algorithm by generations: the nodes of in-degree
  zero (in node order) form the first generation; visiting a node decrements the
  remaining in-degree of each successor (in adjacency order), and a successor whose
  count reaches zero is appended to the next generation.  Generations are emitted one
  after the other, which is a first-in first-out queue.  The dictionary \<open>indegree_map\<close>
  only holds positive counts, so a count of \<open>0\<close> below stands for an absent key:
  decrementing an absent key raises \<open>RuntimeError\<close>, and entries left over at the end
  raise \<open>NetworkXUnfeasible\<close>.
\<close>

definition in_degree :: "graph \<Rightarrow> task \<Rightarrow> nat" where
  "in_degree G v = length (predecessors G v)"

fun dec_children :: "task list \<Rightarrow> (task \<Rightarrow> nat) \<Rightarrow> task list \<Rightarrow> error + ((task \<Rightarrow> nat) \<times> task list)" where
  "dec_children [] indeg z = Inr (indeg, z)"
| "dec_children (c # cs) indeg z =
     (if indeg c = 0 then Inl RuntimeError
      else if indeg c = 1 then dec_children cs (indeg(c := 0)) (z @ [c])
      else dec_children cs (indeg(c := indeg c - 1)) z)"

function kahn :: "graph \<Rightarrow> (task \<Rightarrow> nat) \<Rightarrow> task list \<Rightarrow> error + task list" where
  "kahn G indeg [] =
     (if list_ex (\<lambda>v. indeg v > 0) (task_names G) then Inl NetworkXUnfeasible else Inr [])"
| "kahn G indeg (n # q) =
     (case dec_children (successors G n) indeg [] of
        Inl e \<Rightarrow> Inl e
      | Inr (indeg', z) \<Rightarrow>
          (case kahn G indeg' (q @ z) of Inl e \<Rightarrow> Inl e | Inr out \<Rightarrow> Inr (n # out)))"
  by pat_completeness auto
termination
proof (relation "measure (\<lambda>(G, indeg, q).
          2 * sum indeg (set (map (\<lambda>(a, b, c). b) (g_edges G))) + length q)")
  show "wf (measure (\<lambda>(G, indeg, q).
          2 * sum indeg (set (map (\<lambda>(a, b, c). b) (g_edges G))) + length q))"
    by simp
next
  fix G :: graph and indeg :: "task \<Rightarrow> nat" and n :: task and q :: "task list"
  fix x2 :: "(task \<Rightarrow> nat) \<times> task list" and indeg' :: "task \<Rightarrow> nat" and z :: "task list"
  assume run: "dec_children (successors G n) indeg [] = Inr x2" and x2: "(indeg', z) = x2"
  define V where "V = set (map (\<lambda>(a, b, c). b) (g_edges G))"
  have fin: "finite V" by (simp add: V_def)
  have upd: "sum (f(c := x)) V + f c = sum f V + x" if "c \<in> V" for f :: "task \<Rightarrow> nat" and c x
  proof -
    have "sum (f(c := x)) V = x + sum (f(c := x)) (V - {c})"
      using sum.remove [OF fin that, of "f(c := x)"] by simp
    moreover have "sum (f(c := x)) (V - {c}) = sum f (V - {c})"
      by (rule sum.cong) auto
    moreover have "sum f V = f c + sum f (V - {c})"
      using sum.remove [OF fin that, of f] by simp
    ultimately show ?thesis by simp
  qed
  have aux: "dec_children cs f z0 = Inr (f', z') \<Longrightarrow> set cs \<subseteq> V \<Longrightarrow>
             2 * sum f' V + length z' \<le> 2 * sum f V + length z0" for cs f z0 f' z'
  proof (induction cs arbitrary: f z0)
    case Nil
    then show ?case by simp
  next
    case (Cons c cs)
    from Cons.prems have cV: "c \<in> V" and sub: "set cs \<subseteq> V" by auto
    show ?case
    proof (cases "f c = 1")
      case True
      with Cons.prems have "dec_children cs (f(c := 0)) (z0 @ [c]) = Inr (f', z')" by simp
      from Cons.IH [OF this sub] upd [OF cV, of f 0] True show ?thesis by simp
    next
      case False
      with Cons.prems have pos: "f c \<noteq> 0"
        and "dec_children cs (f(c := f c - 1)) z0 = Inr (f', z')"
        by (auto split: if_splits)
      from Cons.IH [OF this(2) sub] upd [OF cV, of f "f c - 1"] pos show ?thesis by simp
    qed
  qed
  have "set (successors G n) \<subseteq> V"
    by (force simp: V_def successors_def)
  with aux [of "successors G n" indeg "[]" indeg' z] run x2
  have "2 * sum indeg' V + length z \<le> 2 * sum indeg V" by simp
  then show "((G, indeg', q @ z), (G, indeg, n # q)) \<in> measure (\<lambda>(G, indeg, q).
          2 * sum indeg (set (map (\<lambda>(a, b, c). b) (g_edges G))) + length q)"
    by (simp add: V_def)
qed

definition topological_sort :: "graph \<Rightarrow> error + task list" where
  "topological_sort G =
     kahn G (\<lambda>v. if v \<in> set (task_names G) then in_degree G v else 0)
            (filter (\<lambda>v. in_degree G v = 0) (task_names G))"

text \<open>
  A list is a topological order (relative to the already visited set \<open>D\<close>) when the
  predecessors of each element occur before it.
\<close>

fun preds_first :: "graph \<Rightarrow> task set \<Rightarrow> task list \<Rightarrow> bool" where
  "preds_first G D [] = True"
| "preds_first G D (n # r) = (set (predecessors G n) \<subseteq> D \<and> preds_first G (insert n D) r)"

definition pending :: "graph \<Rightarrow> task set \<Rightarrow> task \<Rightarrow> nat" where
  "pending G D v = length (filter (\<lambda>u. u \<notin> D) (predecessors G v))"

definition kahn_inv :: "graph \<Rightarrow> (task \<Rightarrow> nat) \<Rightarrow> task list \<Rightarrow> task set \<Rightarrow> bool" where
  "kahn_inv G indeg q D \<longleftrightarrow>
     (\<forall>v. indeg v = pending G D v) \<and> distinct q \<and> set q \<inter> D = {} \<and>
     set q \<subseteq> set (task_names G) \<and> (\<forall>v \<in> D \<union> set q. indeg v = 0) \<and>
     (\<forall>v \<in> set (task_names G). indeg v = 0 \<longrightarrow> v \<in> D \<union> set q)"

definition edge_rel :: "graph \<Rightarrow> (task \<times> task) set" where
  "edge_rel G = {(u, v). v \<in> set (successors G u)}"


section \<open>Task durations\<close>

text \<open>
  \<open>QIPSO_Scheduler.find_critical_path\<close>, lines 64-66:
  \<open>max(0.1, float(attrs.get('exec_time', attrs.get('comp_cost', 10000)/1000)))\<close>.
\<close>

definition cp_task_time :: "node_attrs \<Rightarrow> real" where
  "cp_task_time a =
     max 0.1 (case exec_time a of
                Some e \<Rightarrow> e
              | None \<Rightarrow> (case comp_cost a of Some c \<Rightarrow> c | None \<Rightarrow> 10000) / 1000)"

text \<open>
  \<open>QIPSO_Scheduler.evaluate_schedule\<close>, line 100, and \<open>schedule_fcfs\<close>, line 35:
  \<open>max(0.1, float(attrs.get('exec_time', 10)))\<close>.
\<close>

definition eval_duration :: "node_attrs \<Rightarrow> real" where
  "eval_duration a = max 0.1 (case exec_time a of Some e \<Rightarrow> e | None \<Rightarrow> 10)"

section \<open>Python helpers\<close>

text \<open>\<open>max(xs)\<close> of a list; \<open>ValueError\<close> on the empty list.\<close>

definition py_max :: "real list \<Rightarrow> error + real" where
  "py_max xs =
     (case xs of
        [] \<Rightarrow> Inl (ValueError ''max() arg is an empty sequence'')
      | x # r \<Rightarrow> Inr (fold max r x))"

text \<open>
  \<open>max([finish.get(p, 0) for p in preds] + [0])\<close>: the largest recorded finish time of
  the predecessors, a predecessor without a record counting as 0, and never below 0.
\<close>

definition ready_time_of :: "(task \<rightharpoonup> real) \<Rightarrow> task list \<Rightarrow> real" where
  "ready_time_of finish preds =
     fold max (map (\<lambda>p. case finish p of None \<Rightarrow> 0 | Some f \<Rightarrow> f) preds) 0"

text \<open>\<open>[1.0 + 0.2 * i for i in range(n)]\<close>\<close>

definition default_node_powers :: "nat \<Rightarrow> real list" where
  "default_node_powers n = map (\<lambda>i. 1 + 0.2 * real i) [0..<n]"

section \<open>FCFS list scheduler\<close>

text \<open>
  \<open>normalize_execution_times(G)\<close> writes into the attribute dictionaries of its argument:
  an \<open>exec_time\<close> below \<open>min_exec_time = 0.1\<close> is replaced by 0.1 (an absent attribute
  reads as 10 and is left absent).  The model returns the graph after the call.
\<close>

definition normalize_attrs :: "node_attrs \<Rightarrow> node_attrs" where
  "normalize_attrs a =
     (if (case exec_time a of None \<Rightarrow> 10 | Some e \<Rightarrow> e) < 0.1
      then a\<lparr>exec_time := Some 0.1\<rparr> else a)"

definition normalize_execution_times :: "graph \<Rightarrow> graph" where
  "normalize_execution_times G = G\<lparr>g_nodes := map (\<lambda>(t, a). (t, normalize_attrs a)) (g_nodes G)\<rparr>"

text \<open>
  The per-task dictionary of a schedule.  HEFT stores the four keys of \<open>sched_info\<close>;
  FCFS stores \<open>ready_time\<close> in addition.
\<close>

record sched_info =
  assigned_node :: nat
  start_time :: real
  end_time :: real
  info_exec_time :: real

record fcfs_info = sched_info +
  ready_time :: real

text \<open>
  \<open>calculate_energy_consumption(schedule, node_powers)\<close>: the loop over
  \<open>schedule.items()\<close> with the running total; \<open>node_powers[node]\<close> raises \<open>IndexError\<close>
  outside the list.
\<close>

fun energy_loop :: "(task \<times> 'a sched_info_scheme) list \<Rightarrow> real list \<Rightarrow> real \<Rightarrow> error + real" where
  "energy_loop [] node_powers total_energy = Inr total_energy"
| "energy_loop ((t, info) # rest) node_powers total_energy =
     (if assigned_node info < length node_powers
      then energy_loop rest node_powers
             (total_energy + (end_time info - start_time info) * node_powers ! assigned_node info)
      else Inl IndexError)"

definition calculate_energy_consumption :: "(task \<times> 'a sched_info_scheme) list \<Rightarrow> real list \<Rightarrow> error + real" where
  "calculate_energy_consumption sched node_powers = energy_loop sched node_powers 0"

text \<open>
  \<open>min(range(n), key=lambda x: node_available_time[x])\<close>: the first index with the
  smallest availability; \<open>ValueError\<close> when the range is empty.
\<close>

definition best_node_of :: "real list \<Rightarrow> nat \<Rightarrow> error + nat" where
  "best_node_of avail n =
     (case [0..<n] of
        [] \<Rightarrow> Inl (ValueError ''min() arg is an empty sequence'')
      | i # r \<Rightarrow> Inr (fold (\<lambda>j b. if avail ! j < avail ! b then j else b) r i))"

record fcfs_state =
  node_available_time :: "real list"
  schedule :: "(task \<times> fcfs_info) list"
  task_finish_times :: "task \<rightharpoonup> real"

text \<open>One pass of the loop body of \<open>schedule_fcfs\<close> (lines 35-50).\<close>

definition fcfs_step :: "graph \<Rightarrow> nat \<Rightarrow> task \<Rightarrow> fcfs_state \<Rightarrow> error + fcfs_state" where
  "fcfs_step G num_edge_nodes t st =
     bnd (node_data G t) (\<lambda>a.
       let exec = eval_duration a;
           ready = ready_time_of (task_finish_times st) (predecessors G t)
       in bnd (best_node_of (node_available_time st) num_edge_nodes) (\<lambda>best.
            let start = max ready (node_available_time st ! best);
                fin = start + exec
            in Inr \<lparr>node_available_time = (node_available_time st)[best := fin],
                    schedule = AList.update t
                       \<lparr>assigned_node = best, start_time = start, end_time = fin,
                        info_exec_time = exec, ready_time = ready\<rparr> (schedule st),
                    task_finish_times = (task_finish_times st)(t \<mapsto> fin)\<rparr>))"

fun fcfs_loop :: "graph \<Rightarrow> nat \<Rightarrow> task list \<Rightarrow> fcfs_state \<Rightarrow> error + fcfs_state" where
  "fcfs_loop G n [] st = Inr st"
| "fcfs_loop G n (t # ts) st = bnd (fcfs_step G n t st) (fcfs_loop G n ts)"

record fcfs_result =
  res_makespan :: real
  res_energy :: real
  res_schedule :: "(task \<times> fcfs_info) list"
  res_node_powers :: "real list"

text \<open>
  \<open>schedule_fcfs(G, num_edge_nodes)\<close>.  The result is the returned dictionary together
  with the graph as the call leaves it.  \<open>range\<close> and list repetition treat a negative
  count like 0, so the node count is a natural number.
\<close>

definition schedule_fcfs :: "graph \<Rightarrow> nat \<Rightarrow> error + (fcfs_result \<times> graph)" where
  "schedule_fcfs G0 num_edge_nodes =
     (let G = normalize_execution_times G0;
          node_powers = default_node_powers num_edge_nodes
      in bnd (topological_sort G) (\<lambda>task_list.
         bnd (fcfs_loop G num_edge_nodes task_list
                \<lparr>node_available_time = replicate num_edge_nodes 0,
                 schedule = [], task_finish_times = Map.empty\<rparr>) (\<lambda>st.
         bnd (py_max (node_available_time st)) (\<lambda>makespan.
         bnd (calculate_energy_consumption (schedule st) node_powers) (\<lambda>total_energy.
           Inr (\<lparr>res_makespan = makespan, res_energy = total_energy,
                 res_schedule = schedule st, res_node_powers = node_powers\<rparr>, G))))))"

section \<open>QIPSO: critical path analysis\<close>

text \<open>
  The three dictionaries of \<open>find_critical_path\<close>: \<open>task_times\<close> is a plain dictionary,
  \<open>earliest_start\<close> a \<open>defaultdict(float)\<close> and \<open>latest_finish\<close> a \<open>defaultdict\<close> whose
  default is \<open>max(earliest_start.values())\<close>, computed when a missing key is read.
  Reading a missing key of a \<open>defaultdict\<close> stores the default, so the two are kept as
  association lists and every read returns the dictionary as well.
\<close>

type_synonym fdict = "(task \<times> real) list"

definition es_get :: "fdict \<Rightarrow> task \<Rightarrow> real \<times> fdict" where
  "es_get es k = (case map_of es k of Some v \<Rightarrow> (v, es) | None \<Rightarrow> (0, es @ [(k, 0)]))"

definition lf_get :: "fdict \<Rightarrow> fdict \<Rightarrow> task \<Rightarrow> error + (real \<times> fdict)" where
  "lf_get es lf k =
     (case map_of lf k of
        Some v \<Rightarrow> Inr (v, lf)
      | None \<Rightarrow> bnd (py_max (map snd es)) (\<lambda>m. Inr (m, lf @ [(k, m)])))"

fun build_task_times :: "graph \<Rightarrow> task list \<Rightarrow> (task \<rightharpoonup> real) \<Rightarrow> error + (task \<rightharpoonup> real)" where
  "build_task_times G [] task_times = Inr task_times"
| "build_task_times G (t # ts) task_times =
     bnd (node_data G t) (\<lambda>a. build_task_times G ts (task_times(t \<mapsto> cp_task_time a)))"

fun forward_succs :: "(task \<rightharpoonup> real) \<Rightarrow> task \<Rightarrow> task list \<Rightarrow> fdict \<Rightarrow> error + fdict" where
  "forward_succs task_times t [] es = Inr es"
| "forward_succs task_times t (s # ss) es =
     (case es_get es s of (a, es1) \<Rightarrow>
      case es_get es1 t of (b, es2) \<Rightarrow>
        bnd (lookup task_times t) (\<lambda>d.
          forward_succs task_times t ss (AList.update s (max a (b + d)) es2)))"

fun forward_pass :: "graph \<Rightarrow> (task \<rightharpoonup> real) \<Rightarrow> task list \<Rightarrow> fdict \<Rightarrow> error + fdict" where
  "forward_pass G task_times [] es = Inr es"
| "forward_pass G task_times (t # ts) es =
     bnd (forward_succs task_times t (successors G t) es) (forward_pass G task_times ts)"

fun backward_preds :: "(task \<rightharpoonup> real) \<Rightarrow> fdict \<Rightarrow> task \<Rightarrow> task list \<Rightarrow> fdict \<Rightarrow> error + fdict" where
  "backward_preds task_times es t [] lf = Inr lf"
| "backward_preds task_times es t (p # ps) lf =
     bnd (lf_get es lf p) (\<lambda>(a, lf1).
     bnd (lf_get es lf1 t) (\<lambda>(b, lf2).
     bnd (lookup task_times p) (\<lambda>d.
       backward_preds task_times es t ps (AList.update p (min a (b - d)) lf2))))"

fun backward_pass :: "graph \<Rightarrow> (task \<rightharpoonup> real) \<Rightarrow> fdict \<Rightarrow> task list \<Rightarrow> fdict \<Rightarrow> error + fdict" where
  "backward_pass G task_times es [] lf = Inr lf"
| "backward_pass G task_times es (t # ts) lf =
     bnd (backward_preds task_times es t (predecessors G t) lf) (backward_pass G task_times es ts)"

text \<open>
  The list comprehension of lines 84-87: reading \<open>earliest_start[task]\<close> and then
  \<open>latest_finish[task]\<close> may store defaults, so both dictionaries are threaded through.
\<close>

fun critical_tasks :: "(task \<rightharpoonup> real) \<Rightarrow> task list \<Rightarrow> fdict \<Rightarrow> fdict \<Rightarrow> error + (task list \<times> fdict \<times> fdict)" where
  "critical_tasks task_times [] es lf = Inr ([], es, lf)"
| "critical_tasks task_times (t # ts) es lf =
     (case es_get es t of (a, es1) \<Rightarrow>
        bnd (lf_get es1 lf t) (\<lambda>(b, lf1).
        bnd (lookup task_times t) (\<lambda>d.
        bnd (critical_tasks task_times ts es1 lf1) (\<lambda>(cp, es2, lf2).
          Inr (if \<bar>a - (b - d)\<bar> < 1 / 1000000 then t # cp else cp, es2, lf2)))))"

text \<open>
  \<open>find_critical_path\<close> up to the list comprehension (lines 62-87): the task times,
  the tasks that pass the test, and \<open>earliest_start\<close> as the comprehension leaves it.
\<close>

definition critical_scan :: "graph \<Rightarrow> task list \<Rightarrow> error + ((task \<rightharpoonup> real) \<times> task list \<times> fdict)" where
  "critical_scan G task_list =
     bnd (build_task_times G task_list Map.empty) (\<lambda>task_times.
     bnd (forward_pass G task_times task_list []) (\<lambda>es.
     bnd (backward_pass G task_times es (rev task_list) []) (\<lambda>lf.
     bnd (critical_tasks task_times task_list es lf) (\<lambda>(cp0, es', lf').
       Inr (task_times, cp0, es')))))"

text \<open>The fallback to \<open>task_list[0]\<close> and the returned pair (lines 88-91).\<close>

definition find_critical_path :: "graph \<Rightarrow> task list \<Rightarrow> error + (task list \<times> real)" where
  "find_critical_path G task_list =
     bnd (critical_scan G task_list) (\<lambda>(task_times, cp0, es').
     bnd (if cp0 = []
          then (case task_list of [] \<Rightarrow> Inl IndexError | t0 # r \<Rightarrow> Inr [t0])
          else Inr cp0) (\<lambda>critical_path.
     bnd (py_max (map snd es')) (\<lambda>m.
     bnd (lookup task_times (last critical_path)) (\<lambda>d.
       Inr (critical_path, m + d)))))"

section \<open>QIPSO: schedule evaluation\<close>

text \<open>
  \<open>evaluate_schedule(schedule)\<close> walks \<open>task_list\<close> with the two per-node lists and the
  dictionary of finish times.  The start and end time of a task are local variables of
  the loop body; \<open>ev_trace\<close> records them (with the node) in a ghost field, so that the
  simulated schedule can be stated.  The assignment \<open>schedule\<close> is a dictionary from
  tasks to node indices.
\<close>

record eval_state =
  device_end_times :: "real list"
  device_energy :: "real list"
  ev_task_finish_times :: "task \<rightharpoonup> real"
  ev_trace :: "(task \<times> fcfs_info) list"

definition eval_step :: "graph \<Rightarrow> real list \<Rightarrow> (task \<rightharpoonup> nat) \<Rightarrow> task \<Rightarrow> eval_state \<Rightarrow> error + eval_state" where
  "eval_step G powers assignment t st =
     bnd (lookup assignment t) (\<lambda>node.
     bnd (node_data G t) (\<lambda>a.
       let duration = eval_duration a;
           ready = ready_time_of (ev_task_finish_times st) (predecessors G t)
       in if node < length (device_end_times st) \<and> node < length powers then
            let start = max ready (device_end_times st ! node);
                fin = start + duration
            in Inr \<lparr>device_end_times = (device_end_times st)[node := fin],
                    device_energy = (device_energy st)[node := device_energy st ! node + powers ! node * duration],
                    ev_task_finish_times = (ev_task_finish_times st)(t \<mapsto> fin),
                    ev_trace = AList.update t
                       \<lparr>assigned_node = node, start_time = start, end_time = fin,
                        info_exec_time = duration, ready_time = ready\<rparr> (ev_trace st)\<rparr>
          else Inl IndexError))"

fun eval_loop :: "graph \<Rightarrow> real list \<Rightarrow> (task \<rightharpoonup> nat) \<Rightarrow> task list \<Rightarrow> eval_state \<Rightarrow> error + eval_state" where
  "eval_loop G powers assignment [] st = Inr st"
| "eval_loop G powers assignment (t # ts) st =
     bnd (eval_step G powers assignment t st) (eval_loop G powers assignment ts)"

definition eval_run :: "graph \<Rightarrow> task list \<Rightarrow> nat \<Rightarrow> (task \<rightharpoonup> nat) \<Rightarrow> error + eval_state" where
  "eval_run G task_list num_nodes assignment =
     eval_loop G (default_node_powers num_nodes) assignment task_list
       \<lparr>device_end_times = replicate num_nodes 0, device_energy = replicate num_nodes 0,
        ev_task_finish_times = Map.empty, ev_trace = []\<rparr>"

definition evaluate_schedule :: "graph \<Rightarrow> task list \<Rightarrow> nat \<Rightarrow> (task \<rightharpoonup> nat) \<Rightarrow> error + (real \<times> real)" where
  "evaluate_schedule G task_list num_nodes assignment =
     bnd (eval_run G task_list num_nodes assignment) (\<lambda>st.
     bnd (py_max (device_end_times st)) (\<lambda>makespan.
       Inr (makespan, sum_list (device_energy st))))"

section \<open>HEFT rank scheduler\<close>

text \<open>
  \<open>HEFTScheduler._get_task_cost\<close> and \<open>_get_comm_cost\<close>; both divide by
  \<open>avg_comp_cost\<close>, and a float division by zero raises \<open>ZeroDivisionError\<close>.
\<close>

definition get_task_cost :: "real \<Rightarrow> node_attrs \<Rightarrow> error + real" where
  "get_task_cost avg_comp_cost node_data' =
     (if avg_comp_cost = 0 then Inl ZeroDivisionError
      else case comp_cost node_data' of
             Some c \<Rightarrow> Inr (c / avg_comp_cost)
           | None \<Rightarrow> (case exec_time node_data' of
                        Some e \<Rightarrow> Inr (e / avg_comp_cost)
                      | None \<Rightarrow> Inr (10 / avg_comp_cost)))"

text \<open>\<open>G.edges.get((u, v), {})\<close> followed by \<open>_get_comm_cost\<close>.\<close>

definition get_comm_cost :: "real \<Rightarrow> graph \<Rightarrow> task \<Rightarrow> task \<Rightarrow> error + real" where
  "get_comm_cost avg_comp_cost G u v =
     (case map_of (map (\<lambda>(a, b, c). ((a, b), c)) (g_edges G)) (u, v) of
        Some (Some c) \<Rightarrow> (if avg_comp_cost = 0 then Inl ZeroDivisionError else Inr (c / avg_comp_cost))
      | _ \<Rightarrow> Inr 0)"

text \<open>
  \<open>compute_upward_rank\<close> recurses through the successors with the memo dictionary
  \<open>rank\<close>.  The first argument bounds the nesting depth of the calls, as the
  interpreter's recursion limit does: a call that would nest deeper raises
  \<open>RecursionError\<close>.
\<close>

fun compute_upward_rank :: "nat \<Rightarrow> real \<Rightarrow> graph \<Rightarrow> task \<Rightarrow> (task \<rightharpoonup> real) \<Rightarrow> error + (real \<times> (task \<rightharpoonup> real))"
  and rank_succs :: "nat \<Rightarrow> real \<Rightarrow> graph \<Rightarrow> task \<Rightarrow> task list \<Rightarrow> (task \<rightharpoonup> real) \<Rightarrow> error + (real list \<times> (task \<rightharpoonup> real))"
where
  "compute_upward_rank 0 avg G t rank =
     (case rank t of Some r \<Rightarrow> Inr (r, rank) | None \<Rightarrow> Inl RecursionError)"
| "compute_upward_rank (Suc d) avg G t rank =
     (case rank t of
        Some r \<Rightarrow> Inr (r, rank)
      | None \<Rightarrow>
          bnd (node_data G t) (\<lambda>a.
          bnd (get_task_cost avg a) (\<lambda>cost.
            if successors G t = [] then Inr (cost, rank(t \<mapsto> cost))
            else bnd (rank_succs d avg G t (successors G t) rank) (\<lambda>(vals, rank').
                 bnd (py_max vals) (\<lambda>m. Inr (cost + m, rank'(t \<mapsto> cost + m)))))))"
| "rank_succs d avg G t [] rank = Inr ([], rank)"
| "rank_succs d avg G t (s # ss) rank =
     bnd (compute_upward_rank d avg G s rank) (\<lambda>(r, rank1).
     bnd (get_comm_cost avg G t s) (\<lambda>c.
     bnd (rank_succs d avg G t ss rank1) (\<lambda>(vals, rank2). Inr ((r + c) # vals, rank2))))"

fun rank_all :: "nat \<Rightarrow> real \<Rightarrow> graph \<Rightarrow> task list \<Rightarrow> (task \<rightharpoonup> real) \<Rightarrow> error + (task \<rightharpoonup> real)" where
  "rank_all d avg G [] rank = Inr rank"
| "rank_all d avg G (t # ts) rank =
     bnd (compute_upward_rank d avg G t rank) (\<lambda>(r, rank'). rank_all d avg G ts rank')"

text \<open>
  \<open>sorted(task_list, key=lambda x: rank[x], reverse=True)\<close>: a stable sort by descending
  rank, so tasks of equal rank keep their topological order.
\<close>

definition sorted_by_rank :: "(task \<rightharpoonup> real) \<Rightarrow> task list \<Rightarrow> error + task list" where
  "sorted_by_rank rank task_list =
     (if list_ex (\<lambda>x. rank x = None) task_list then Inl KeyError
      else Inr (sort_key (\<lambda>x. - the (rank x)) task_list))"

text \<open>
  The ready time of HEFT (lines 67-73): 0 without predecessors, otherwise the maximum
  of \<open>end_time + comm_cost\<close> over the predecessors, each of which must already be in
  \<open>schedule_result\<close> (\<open>KeyError\<close> otherwise).
\<close>

fun pred_arrivals :: "real \<Rightarrow> graph \<Rightarrow> task \<Rightarrow> task list \<Rightarrow> (task \<times> sched_info) list \<Rightarrow> error + real list" where
  "pred_arrivals avg G t [] sched = Inr []"
| "pred_arrivals avg G t (p # ps) sched =
     (case map_of sched p of
        None \<Rightarrow> Inl KeyError
      | Some pinfo \<Rightarrow>
          bnd (get_comm_cost avg G p t) (\<lambda>c.
          bnd (pred_arrivals avg G t ps sched) (\<lambda>vs. Inr ((end_time pinfo + c) # vs))))"

definition heft_ready_time :: "real \<Rightarrow> graph \<Rightarrow> task \<Rightarrow> (task \<times> sched_info) list \<Rightarrow> error + real" where
  "heft_ready_time avg G t sched =
     (if predecessors G t = [] then Inr 0
      else bnd (pred_arrivals avg G t (predecessors G t) sched) py_max)"

text \<open>
  The search for the node of earliest finish time (lines 75-84); \<open>best_finish_time\<close>
  starts at infinity, written \<open>None\<close>, and \<open>best_node\<close> at \<open>None\<close>.
\<close>

definition best_eft_node :: "real \<Rightarrow> real \<Rightarrow> real list \<Rightarrow> nat \<Rightarrow> nat option" where
  "best_eft_node ready comp_time avail n =
     fst (fold (\<lambda>node_id (best_node, best_finish_time).
                  let est = max ready (avail ! node_id); eft = est + comp_time
                  in if (case best_finish_time of None \<Rightarrow> True | Some bf \<Rightarrow> eft < bf)
                     then (Some node_id, Some eft) else (best_node, best_finish_time))
               [0..<n] (None, None))"

record heft_state =
  h_node_available_time :: "real list"
  schedule_result :: "(task \<times> sched_info) list"

definition heft_step :: "real \<Rightarrow> graph \<Rightarrow> nat \<Rightarrow> task \<Rightarrow> heft_state \<Rightarrow> error + heft_state" where
  "heft_step avg G n t st =
     bnd (node_data G t) (\<lambda>a.
     bnd (get_task_cost avg a) (\<lambda>comp_time.
     bnd (heft_ready_time avg G t (schedule_result st)) (\<lambda>ready.
       case best_eft_node ready comp_time (h_node_available_time st) n of
         None \<Rightarrow> Inl TypeError
       | Some best \<Rightarrow>
           let start = max ready (h_node_available_time st ! best);
               fin = start + comp_time
           in Inr \<lparr>h_node_available_time = (h_node_available_time st)[best := fin],
                   schedule_result = AList.update t
                     \<lparr>assigned_node = best, start_time = start, end_time = fin,
                      info_exec_time = comp_time\<rparr> (schedule_result st)\<rparr>)))"

fun heft_loop :: "real \<Rightarrow> graph \<Rightarrow> nat \<Rightarrow> task list \<Rightarrow> heft_state \<Rightarrow> error + heft_state" where
  "heft_loop avg G n [] st = Inr st"
| "heft_loop avg G n (t # ts) st = bnd (heft_step avg G n t st) (heft_loop avg G n ts)"

text \<open>
  \<open>HEFTScheduler(num_edge_nodes, avg_comp_cost).schedule(G)\<close>; the result is
  \<open>self.schedule_result\<close>.
\<close>

definition heft_schedule :: "nat \<Rightarrow> nat \<Rightarrow> real \<Rightarrow> graph \<Rightarrow> error + (task \<times> sched_info) list" where
  "heft_schedule recursion_limit num_edge_nodes avg_comp_cost G =
     bnd (topological_sort G) (\<lambda>task_list.
     bnd (rank_all recursion_limit avg_comp_cost G task_list Map.empty) (\<lambda>rank.
     bnd (sorted_by_rank rank task_list) (\<lambda>sorted_tasks.
     bnd (heft_loop avg_comp_cost G num_edge_nodes sorted_tasks
            \<lparr>h_node_available_time = replicate num_edge_nodes 0, schedule_result = []\<rparr>) (\<lambda>st.
       Inr (schedule_result st)))))"

definition get_makespan :: "real \<Rightarrow> (task \<times> sched_info) list \<Rightarrow> real" where
  "get_makespan avg_comp_cost sched =
     (case map (\<lambda>(t, info). end_time info) sched of
        [] \<Rightarrow> 0
      | x # r \<Rightarrow> fold max r x * avg_comp_cost)"

definition calculate_energy :: "real \<Rightarrow> real list \<Rightarrow> (task \<times> sched_info) list \<Rightarrow> error + real" where
  "calculate_energy avg_comp_cost node_powers sched =
     bnd (energy_loop sched node_powers 0) (\<lambda>total_energy. Inr (total_energy * avg_comp_cost))"

section \<open>QIPSO: construction and optimisation loop\<close>

text \<open>
  The fields of a \<open>QIPSO_Scheduler\<close> that do not change after construction, and the
  bests and the history that \<open>run_optimization\<close> updates.  A score of \<open>float('inf')\<close> is
  written \<open>None\<close>.  The quantum-bit and velocity arrays \<open>qbits\<close>, \<open>velocities\<close> only
  determine the distribution of the random draws; the draws themselves are an input of
  the model (a node index per iteration, particle and task), so the arrays and
  \<open>update_quantum_states\<close> are left out.
\<close>

record qipso =
  dag :: graph
  task_list :: "task list"
  num_nodes :: nat
  num_particles :: nat
  max_iter :: int
  cognitive :: real
  social :: real
  mutation_prob :: real
  critical_path :: "task list"
  critical_length :: real

record opt_state =
  personal_best_scores :: "real option list"
  personal_best_schedules :: "(task \<rightharpoonup> nat) list"
  global_best_score :: "real option"
  global_best_energy :: "real option"
  global_best_schedule :: "task \<rightharpoonup> nat"
  convergence_history :: "(real option \<times> real option) list"

text \<open>
  \<open>QIPSO_Scheduler.__init__\<close>.  The argument is a \<open>graph\<close>, so the \<open>isinstance\<close> test
  cannot fail; \<open>relabel_nodes\<close> with \<open>str\<close> is the identity on tasks that are strings.
  \<open>np.random.uniform\<close> refuses a negative dimension, which is the only way the particle
  count is looked at.
\<close>

definition QIPSO_init ::
  "graph \<Rightarrow> int \<Rightarrow> int \<Rightarrow> int \<Rightarrow> real \<Rightarrow> real \<Rightarrow> real \<Rightarrow> error + (qipso \<times> opt_state)" where
  "QIPSO_init G num_edge_nodes n_particles n_iter cognitive_weight social_weight mutation =
     (if num_edge_nodes < 1 then Inl (ValueError ''Must have at least 1 edge node'')
      else if mutation < 0 \<or> mutation > 1
        then Inl (ValueError ''Mutation probability must be between 0 and 1'')
      else case topological_sort G of
             Inl NetworkXUnfeasible \<Rightarrow> Inl (ValueError ''Graph contains cycles - must be a DAG'')
           | Inl e \<Rightarrow> Inl e
           | Inr tasks \<Rightarrow>
               bnd (find_critical_path G tasks) (\<lambda>(cp, cl).
                 if n_particles < 0 then Inl (ValueError ''negative dimensions are not allowed'')
                 else Inr (\<lparr>dag = G, task_list = tasks, num_nodes = nat num_edge_nodes,
                            num_particles = nat n_particles, max_iter = n_iter,
                            cognitive = cognitive_weight, social = social_weight,
                            mutation_prob = mutation, critical_path = cp, critical_length = cl\<rparr>,
                           \<lparr>personal_best_scores = replicate (nat n_particles) None,
                            personal_best_schedules = replicate (nat n_particles) Map.empty,
                            global_best_score = None, global_best_energy = None,
                            global_best_schedule = Map.empty, convergence_history = []\<rparr>)))"

text \<open>\<open>makespan < score\<close> where the score may be infinite.\<close>

definition score_less :: "real \<Rightarrow> real option \<Rightarrow> bool" where
  "score_less m s = (case s of None \<Rightarrow> True | Some b \<Rightarrow> m < b)"

text \<open>\<open>min\<close> of scores, \<open>None\<close> being infinity.\<close>

fun opt_min :: "real option \<Rightarrow> real option \<Rightarrow> real option" where
  "opt_min None y = y"
| "opt_min (Some x) None = Some x"
| "opt_min (Some x) (Some y) = Some (min x y)"

text \<open>
  \<open>check_convergence\<close> (lines 186-197).  With an infinite best score both
  comparisons are false (\<open>abs(inf - c) < 0.1\<close> and \<open>abs(inf - inf) < 0.1\<close>).
\<close>

definition check_convergence :: "real \<Rightarrow> opt_state \<Rightarrow> bool" where
  "check_convergence crit st =
     (case global_best_score st of
        None \<Rightarrow> False
      | Some g \<Rightarrow>
          if \<bar>g - crit\<bar> < 0.1 then True
          else if length (convergence_history st) > 20 then
            (case fold opt_min
                    (map fst (drop (length (convergence_history st) - 20) (convergence_history st)))
                    None of
               None \<Rightarrow> False
             | Some m \<Rightarrow> \<bar>m - g\<bar> < 0.1)
          else False)"

text \<open>
  The body of the loop over the particles (lines 123-139): the assignment built from
  the draws for every task of \<open>task_list\<close>, its evaluation, and the update of the
  personal and global best.
\<close>

definition particle_step :: "qipso \<Rightarrow> (nat \<Rightarrow> task \<Rightarrow> nat) \<Rightarrow> nat \<Rightarrow> opt_state \<Rightarrow> error + opt_state" where
  "particle_step q draw p st =
     (let sched = (\<lambda>t. if t \<in> set (task_list q) then Some (draw p t) else None)
      in bnd (evaluate_schedule (dag q) (task_list q) (num_nodes q) sched) (\<lambda>(makespan, energy).
           if score_less makespan (personal_best_scores st ! p) then
             let st1 = st\<lparr>personal_best_scores := (personal_best_scores st)[p := Some makespan],
                          personal_best_schedules := (personal_best_schedules st)[p := sched]\<rparr>
             in if score_less makespan (global_best_score st1)
                then Inr (st1\<lparr>global_best_score := Some makespan,
                              global_best_energy := Some energy,
                              global_best_schedule := sched\<rparr>)
                else Inr st1
           else Inr st))"

fun particles_pass :: "qipso \<Rightarrow> (nat \<Rightarrow> task \<Rightarrow> nat) \<Rightarrow> nat list \<Rightarrow> opt_state \<Rightarrow> error + opt_state" where
  "particles_pass q draw [] st = Inr st"
| "particles_pass q draw (p # ps) st = bnd (particle_step q draw p st) (particles_pass q draw ps)"

text \<open>
  The loop over \<open>range(max_iter)\<close>.  The second component of the result is the
  iteration at which \<open>check_convergence\<close> broke out of the loop, or \<open>None\<close> when the
  range was exhausted.
\<close>

fun iterations :: "qipso \<Rightarrow> (nat \<Rightarrow> nat \<Rightarrow> task \<Rightarrow> nat) \<Rightarrow> nat list \<Rightarrow> opt_state \<Rightarrow> error + (opt_state \<times> nat option)" where
  "iterations q draws [] st = Inr (st, None)"
| "iterations q draws (it # its) st =
     bnd (particles_pass q (draws it) [0..<num_particles q] st) (\<lambda>st1.
       let st2 = st1\<lparr>convergence_history :=
                       convergence_history st1 @ [(global_best_score st1, global_best_energy st1)]\<rparr>
       in if check_convergence (critical_length q) st2 then Inr (st2, Some it)
          else iterations q draws its st2)"

definition run_optimization :: "qipso \<Rightarrow> (nat \<Rightarrow> nat \<Rightarrow> task \<Rightarrow> nat) \<Rightarrow> opt_state \<Rightarrow> error + (opt_state \<times> nat option)" where
  "run_optimization q draws st = iterations q draws [0..<nat (max_iter q)] st"

section \<open>Example graphs\<close>

definition task_of :: "real \<Rightarrow> node_attrs" where
  "task_of e = \<lparr>exec_time = Some e, comp_cost = None\<rparr>"

definition diamond :: graph where
  "diamond = \<lparr>g_nodes = [(''A'', task_of 1), (''B'', task_of 1), (''C'', task_of 1), (''D'', task_of 1)],
              g_edges = [(''A'', ''B'', None), (''A'', ''C'', None),
                         (''B'', ''D'', None), (''C'', ''D'', None)]\<rparr>"

text \<open>The diamond graph with the edge A \<open>\<rightarrow>\<close> C inserted before A \<open>\<rightarrow>\<close> B.\<close>

definition diamond_cb :: graph where
  "diamond_cb = \<lparr>g_nodes = [(''A'', task_of 1), (''B'', task_of 1), (''C'', task_of 1), (''D'', task_of 1)],
                 g_edges = [(''A'', ''C'', None), (''A'', ''B'', None),
                            (''B'', ''D'', None), (''C'', ''D'', None)]\<rparr>"

definition chain2 :: graph where
  "chain2 = \<lparr>g_nodes = [(''A'', task_of 5), (''B'', task_of 1)],
             g_edges = [(''A'', ''B'', None)]\<rparr>"

definition empty_graph :: graph where
  "empty_graph = \<lparr>g_nodes = [], g_edges = []\<rparr>"

definition single_task :: "real \<Rightarrow> graph" where
  "single_task e = \<lparr>g_nodes = [(''A'', task_of e)], g_edges = []\<rparr>"

definition three_tasks :: graph where
  "three_tasks = \<lparr>g_nodes = [(''A'', task_of 1), (''B'', task_of 1), (''C'', task_of 1)],
                  g_edges = []\<rparr>"

definition two_cycle :: graph where
  "two_cycle = \<lparr>g_nodes = [(''A'', task_of 1), (''B'', task_of 1)],
                g_edges = [(''A'', ''B'', None), (''B'', ''A'', None)]\<rparr>"

text \<open>
  A chain A \<open>\<rightarrow>\<close> B with \<open>comp_cost = 1000\<close> on both tasks and a communication cost of
  \<open>-500\<close> on the edge.
\<close>

definition neg_comm_chain :: graph where
  "neg_comm_chain =
     \<lparr>g_nodes = [(''A'', \<lparr>exec_time = None, comp_cost = Some 1000\<rparr>),
                 (''B'', \<lparr>exec_time = None, comp_cost = Some 1000\<rparr>)],
      g_edges = [(''A'', ''B'', Some (- 500))]\<rparr>"

text \<open>
  A chain A \<open>\<rightarrow>\<close> B in which no task defines \<open>exec_time\<close>: A has no attribute at all and
  B only a \<open>comp_cost\<close> of 10000.
\<close>

definition default_chain :: graph where
  "default_chain = \<lparr>g_nodes = [(''A'', \<lparr>exec_time = None, comp_cost = None\<rparr>),
                               (''B'', \<lparr>exec_time = None, comp_cost = Some 10000\<rparr>)],
                    g_edges = [(''A'', ''B'', None)]\<rparr>"

text \<open>
  A chain A \<open>\<rightarrow>\<close> B in which A defines an \<open>exec_time\<close> below the floor (and a
  \<open>comp_cost\<close>) and B only a \<open>comp_cost\<close> of 5000.
\<close>

definition mixed_chain :: graph where
  "mixed_chain = \<lparr>g_nodes = [(''A'', \<lparr>exec_time = Some (1/20), comp_cost = Some 7000\<rparr>),
                             (''B'', \<lparr>exec_time = None, comp_cost = Some 5000\<rparr>)],
                  g_edges = [(''A'', ''B'', None)]\<rparr>"

section \<open>Reading results\<close>

text \<open>The entry of a task in the schedule returned by FCFS, and the returned makespan.\<close>

definition fcfs_info_of :: "graph \<Rightarrow> nat \<Rightarrow> task \<Rightarrow> fcfs_info option" where
  "fcfs_info_of G n t =
     (case schedule_fcfs G n of Inl e \<Rightarrow> None | Inr (res, G') \<Rightarrow> map_of (res_schedule res) t)"

definition fcfs_makespan_of :: "graph \<Rightarrow> nat \<Rightarrow> real option" where
  "fcfs_makespan_of G n =
     (case schedule_fcfs G n of Inl e \<Rightarrow> None | Inr (res, G') \<Rightarrow> Some (res_makespan res))"

text \<open>
  A sequence of draws for one particle on \<open>three_tasks\<close>: every task on node 0 during
  the iterations 0 to 19, and from iteration 20 on task A on node 1.
\<close>

definition stagnation_draws :: "nat \<Rightarrow> nat \<Rightarrow> task \<Rightarrow> nat" where
  "stagnation_draws it p t = (if it < 20 then 0 else if t = ''A'' then 1 else 0)"

section \<open>Properties of schedules\<close>

text \<open>
  The precedence invariant of a schedule, as a dictionary from tasks to their entries:
  every predecessor of a scheduled task is scheduled and ends no later than the task
  starts.
\<close>

definition precedence_ok :: "graph \<Rightarrow> (task \<rightharpoonup> 'a sched_info_scheme) \<Rightarrow> bool" where
  "precedence_ok G m \<longleftrightarrow>
     (\<forall>t info. m t = Some info \<longrightarrow>
        (\<forall>p \<in> set (predecessors G t). \<exists>pinfo. m p = Some pinfo \<and> end_time pinfo \<le> start_time info))"

text \<open>
  The energy of a schedule recomputed from its stored entries, in the words of the
  specification: the sum over the tasks of \<open>(end_time - start_time) * power[node]\<close>.
\<close>

definition recomputed_energy :: "(task \<times> 'a sched_info_scheme) list \<Rightarrow> real list \<Rightarrow> real" where
  "recomputed_energy sched powers =
     (\<Sum>(t, info) \<leftarrow> sched. (end_time info - start_time info) * powers ! assigned_node info)"

text \<open>What the loop of \<open>schedule_fcfs\<close> maintains.\<close>

definition fcfs_inv :: "graph \<Rightarrow> nat \<Rightarrow> fcfs_state \<Rightarrow> bool" where
  "fcfs_inv G n st \<longleftrightarrow>
     length (node_available_time st) = n \<and>
     distinct (map fst (schedule st)) \<and>
     (\<forall>t. task_finish_times st t = map_option end_time (map_of (schedule st) t)) \<and>
     precedence_ok G (map_of (schedule st)) \<and>
     (\<forall>t info. map_of (schedule st) t = Some info \<longrightarrow>
        assigned_node info < n \<and>
        (\<exists>a. node_data G t = Inr a \<and> info_exec_time info = eval_duration a \<and>
             end_time info = start_time info + eval_duration a))"

text \<open>What the loop of \<open>evaluate_schedule\<close> maintains.\<close>

definition eval_inv :: "graph \<Rightarrow> nat \<Rightarrow> (task \<rightharpoonup> nat) \<Rightarrow> eval_state \<Rightarrow> bool" where
  "eval_inv G n assignment st \<longleftrightarrow>
     length (device_end_times st) = n \<and> length (device_energy st) = n \<and>
     distinct (map fst (ev_trace st)) \<and>
     (\<forall>t. ev_task_finish_times st t = map_option end_time (map_of (ev_trace st) t)) \<and>
     precedence_ok G (map_of (ev_trace st)) \<and>
     (\<forall>t info. map_of (ev_trace st) t = Some info \<longrightarrow>
        assigned_node info < n \<and> assignment t = Some (assigned_node info) \<and>
        (\<exists>a. node_data G t = Inr a \<and> info_exec_time info = eval_duration a \<and>
             end_time info = start_time info + eval_duration a))"

text \<open>
  What the loop of \<open>evaluate_schedule\<close> maintains about \<open>device_end_times\<close>: every entry
  is 0 or the end of a simulated task, and the entry of a node is not below the end of
  any task simulated on it.
\<close>

definition eval_ends_inv :: "eval_state \<Rightarrow> bool" where
  "eval_ends_inv st \<longleftrightarrow>
     (\<forall>x \<in> set (device_end_times st).
         x = 0 \<or> (\<exists>t info. map_of (ev_trace st) t = Some info \<and> end_time info = x)) \<and>
     (\<forall>t info. map_of (ev_trace st) t = Some info \<longrightarrow>
         0 \<le> start_time info \<and> assigned_node info < length (device_end_times st) \<and>
         end_time info \<le> device_end_times st ! assigned_node info)"

text \<open>
  What the assignment loop of HEFT maintains: a scheduled task starts no earlier than
  each predecessor's end plus the communication cost of the edge.
\<close>

definition heft_inv :: "real \<Rightarrow> graph \<Rightarrow> nat \<Rightarrow> heft_state \<Rightarrow> bool" where
  "heft_inv avg G n st \<longleftrightarrow>
     length (h_node_available_time st) = n \<and>
     distinct (map fst (schedule_result st)) \<and>
     (\<forall>t info. map_of (schedule_result st) t = Some info \<longrightarrow>
        assigned_node info < n \<and>
        (\<forall>p \<in> set (predecessors G t). \<exists>pinfo c.
            map_of (schedule_result st) p = Some pinfo \<and> get_comm_cost avg G p t = Inr c \<and>
            end_time pinfo + c \<le> start_time info))"

text \<open>Communication costs are not negative.\<close>

definition comm_nonneg :: "graph \<Rightarrow> bool" where
  "comm_nonneg G \<longleftrightarrow> (\<forall>(u, v, c) \<in> set (g_edges G). \<forall>x. c = Some x \<longrightarrow> 0 \<le> x)"

section \<open>Invariants of the optimisation loop\<close>

text \<open>Comparison of scores, \<open>None\<close> being infinity.\<close>

fun opt_le :: "real option \<Rightarrow> real option \<Rightarrow> bool" where
  "opt_le x None = True"
| "opt_le None (Some y) = False"
| "opt_le (Some x) (Some y) = (x \<le> y)"

text \<open>
  The global best is never above a personal best nor above a recorded history entry.
\<close>

definition best_inv :: "opt_state \<Rightarrow> bool" where
  "best_inv st \<longleftrightarrow>
     (\<forall>s \<in> set (personal_best_scores st). opt_le (global_best_score st) s) \<and>
     (\<forall>h \<in> set (convergence_history st). opt_le (global_best_score st) (fst h))"

section \<open>Correctness of the topological order\<close>

lemma dec_children_closed:
  "distinct cs \<Longrightarrow> \<forall>c \<in> set cs. f c \<ge> 1 \<Longrightarrow>
   dec_children cs f z = Inr (\<lambda>v. if v \<in> set cs then f v - 1 else f v, z @ filter (\<lambda>c. f c = 1) cs)"
proof (induction cs arbitrary: f z)
  case Nil
  then show ?case by simp
next
  case (Cons c cs)
  from Cons.prems have c: "c \<notin> set cs" "distinct cs" "f c \<ge> 1" and rest: "\<forall>d \<in> set cs. f d \<ge> 1"
    by auto
  define g where "g = (if f c = 1 then f(c := 0) else f(c := f c - 1))"
  define z1 where "z1 = (if f c = 1 then z @ [c] else z)"
  have step: "dec_children (c # cs) f z = dec_children cs g z1"
    using c(3) by (simp add: g_def z1_def)
  have pre: "\<forall>d \<in> set cs. g d \<ge> 1" using c rest by (auto simp: g_def)
  have flt: "filter (\<lambda>d. g d = 1) cs = filter (\<lambda>d. f d = 1) cs"
    using c by (intro filter_cong) (auto simp: g_def)
  have fn: "(\<lambda>v. if v \<in> set cs then g v - 1 else g v)
            = (\<lambda>v. if v \<in> set (c # cs) then f v - 1 else f v)"
    using c by (auto simp: g_def)
  have zz: "z1 @ filter (\<lambda>d. f d = 1) cs = z @ filter (\<lambda>d. f d = 1) (c # cs)"
    by (simp add: z1_def)
  have "dec_children cs g z1 = Inr (\<lambda>v. if v \<in> set cs then g v - 1 else g v, z1 @ filter (\<lambda>d. g d = 1) cs)"
    by (rule Cons.IH [OF c(2) pre])
  then show ?case
    unfolding step fn flt zz .
qed

lemma wf_distinct_successors: "wf_graph G \<Longrightarrow> distinct (successors G n)"
  unfolding wf_graph_def successors_def
  by (auto simp: distinct_map inj_on_def intro!: distinct_filter)

lemma wf_distinct_predecessors: "wf_graph G \<Longrightarrow> distinct (predecessors G v)"
  unfolding wf_graph_def predecessors_def
  by (auto simp: distinct_map inj_on_def intro!: distinct_filter)

lemma succ_pred_iff: "v \<in> set (successors G n) \<longleftrightarrow> n \<in> set (predecessors G v)"
  by (force simp: successors_def predecessors_def)

lemma wf_successors_nodes: "wf_graph G \<Longrightarrow> set (successors G n) \<subseteq> set (task_names G)"
  unfolding wf_graph_def successors_def by force

lemma wf_predecessors_nodes: "wf_graph G \<Longrightarrow> set (predecessors G n) \<subseteq> set (task_names G)"
  unfolding wf_graph_def predecessors_def by force

lemma wf_pred_of_nonnode: "wf_graph G \<Longrightarrow> v \<notin> set (task_names G) \<Longrightarrow> predecessors G v = []"
  unfolding wf_graph_def predecessors_def by (force simp: filter_empty_conv)

lemma length_filter_insert:
  "distinct xs \<Longrightarrow> x \<in> set xs \<Longrightarrow> x \<notin> D \<Longrightarrow>
   Suc (length (filter (\<lambda>u. u \<notin> insert x D) xs)) = length (filter (\<lambda>u. u \<notin> D) xs)"
proof (induction xs)
  case Nil
  then show ?case by simp
next
  case (Cons y ys)
  show ?case
  proof (cases "y = x")
    case True
    with Cons.prems have "x \<notin> set ys" by simp
    then have "filter (\<lambda>u. u \<notin> insert x D) ys = filter (\<lambda>u. u \<notin> D) ys"
      by (intro filter_cong) auto
    with True Cons.prems show ?thesis by simp
  next
    case False
    with Cons.prems have "x \<in> set ys" "distinct ys" by auto
    from Cons.IH [OF this(2) this(1) Cons.prems(3)] False
    show ?thesis by simp
  qed
qed

lemma pending_insert:
  assumes "wf_graph G"
  shows "pending G (insert n D) v =
         (if n \<in> set (predecessors G v) \<and> n \<notin> D then pending G D v - 1 else pending G D v)"
proof (cases "n \<in> set (predecessors G v) \<and> n \<notin> D")
  case True
  then show ?thesis
    using length_filter_insert [OF wf_distinct_predecessors [OF assms], of n v D]
    by (simp add: pending_def)
next
  case False
  then have "filter (\<lambda>u. u \<notin> insert n D) (predecessors G v) = filter (\<lambda>u. u \<notin> D) (predecessors G v)"
    by (intro filter_cong) auto
  then have "pending G (insert n D) v = pending G D v"
    unfolding pending_def by (rule arg_cong)
  with False show ?thesis by auto
qed

lemma pending_zero: "pending G D v = 0 \<longleftrightarrow> set (predecessors G v) \<subseteq> D"
  by (auto simp: pending_def filter_empty_conv)

lemma kahn_inv_step:
  assumes wf: "wf_graph G" and inv: "kahn_inv G indeg (n # q) D"
  defines "indeg' \<equiv> \<lambda>v. if v \<in> set (successors G n) then indeg v - 1 else indeg v"
  defines "z \<equiv> filter (\<lambda>c. indeg c = 1) (successors G n)"
  shows "dec_children (successors G n) indeg [] = Inr (indeg', z)"
    and "kahn_inv G indeg' (q @ z) (insert n D)"
    and "set (predecessors G n) \<subseteq> D" and "n \<notin> D" and "n \<in> set (task_names G)"
proof -
  let ?cs = "successors G n"
  have pend: "\<And>v. indeg v = pending G D v" using inv by (simp add: kahn_inv_def)
  show nD: "n \<notin> D" using inv by (auto simp: kahn_inv_def)
  have nq: "n \<notin> set q" and dq: "distinct q" using inv by (auto simp: kahn_inv_def)
  have zero_old: "\<And>v. v \<in> D \<union> set (n # q) \<Longrightarrow> indeg v = 0"
    using inv unfolding kahn_inv_def by blast
  show "set (predecessors G n) \<subseteq> D"
    using zero_old [of n] pend [of n] by (simp add: pending_zero)
  show "n \<in> set (task_names G)" using inv by (simp add: kahn_inv_def)
  have dcs: "distinct ?cs" by (rule wf_distinct_successors [OF wf])
  have pos: "\<forall>c \<in> set ?cs. indeg c \<ge> 1"
  proof
    fix c assume "c \<in> set ?cs"
    then have "n \<in> set (predecessors G c)" by (simp add: succ_pred_iff)
    with nD have "\<not> set (predecessors G c) \<subseteq> D" by auto
    then have "pending G D c \<noteq> 0" by (simp add: pending_zero)
    then show "indeg c \<ge> 1" using pend [of c] by simp
  qed
  show "dec_children ?cs indeg [] = Inr (indeg', z)"
    using dec_children_closed [OF dcs pos, of "[]"] by (simp add: indeg'_def z_def)
  have i1: "\<forall>v. indeg' v = pending G (insert n D) v"
    using nD by (simp add: indeg'_def pending_insert [OF wf] succ_pred_iff pend)
  have i2: "distinct (q @ z)"
    using dq dcs zero_old by (auto simp: z_def)
  have i3: "set (q @ z) \<inter> insert n D = {}"
    using inv nq zero_old by (auto simp: z_def kahn_inv_def)
  have i4: "set (q @ z) \<subseteq> set (task_names G)"
    using inv wf_successors_nodes [OF wf, of n] by (auto simp: z_def kahn_inv_def)
  have i5: "\<forall>v \<in> insert n D \<union> set (q @ z). indeg' v = 0"
    using zero_old by (auto simp: z_def indeg'_def)
  have i6: "\<forall>v \<in> set (task_names G). indeg' v = 0 \<longrightarrow> v \<in> insert n D \<union> set (q @ z)"
  proof (intro ballI impI)
    fix v assume v: "v \<in> set (task_names G)" and z0: "indeg' v = 0"
    show "v \<in> insert n D \<union> set (q @ z)"
    proof (cases "v \<in> set ?cs")
      case True
      with z0 pos have "indeg v = 1" by (auto simp: indeg'_def le_Suc_eq dest!: bspec [where x = v])
      with True show ?thesis by (simp add: z_def)
    next
      case False
      with z0 have "indeg v = 0" by (simp add: indeg'_def)
      with inv v show ?thesis by (auto simp: kahn_inv_def)
    qed
  qed
  from i1 i2 i3 i4 i5 i6 show "kahn_inv G indeg' (q @ z) (insert n D)"
    unfolding kahn_inv_def by blast
qed

lemma kahn_sound:
  "wf_graph G \<Longrightarrow> kahn_inv G indeg q D \<Longrightarrow> kahn G indeg q = Inr out \<Longrightarrow>
   preds_first G D out \<and> distinct out \<and> set out \<inter> D = {} \<and>
   set (task_names G) \<subseteq> D \<union> set out \<and> set out \<subseteq> set (task_names G)"
proof (induction G indeg q arbitrary: out D rule: kahn.induct)
  case (1 G indeg)
  from "1.prems"(3) have out: "out = []" and zero: "\<forall>v \<in> set (task_names G). indeg v = 0"
    by (auto simp: list_ex_iff split: if_splits)
  with "1.prems"(2) show ?case by (auto simp: kahn_inv_def)
next
  case (2 G indeg n q)
  note step = kahn_inv_step [OF "2.prems"(1) "2.prems"(2)]
  from "2.prems"(3) step(1) obtain out' where
    rec: "kahn G (\<lambda>v. if v \<in> set (successors G n) then indeg v - 1 else indeg v)
            (q @ filter (\<lambda>c. indeg c = 1) (successors G n)) = Inr out'" and out: "out = n # out'"
    by (auto split: sum.splits)
  from "2.IH" [OF step(1) refl "2.prems"(1) step(2) rec]
  have res: "preds_first G (insert n D) out'" "distinct out'" "set out' \<inter> insert n D = {}"
    "set (task_names G) \<subseteq> insert n D \<union> set out'" "set out' \<subseteq> set (task_names G)"
    by auto
  with step(3,4,5) out show ?case by auto
qed

lemma kahn_no_runtime_error:
  "wf_graph G \<Longrightarrow> kahn_inv G indeg q D \<Longrightarrow> kahn G indeg q = Inl e \<Longrightarrow> e = NetworkXUnfeasible"
proof (induction G indeg q arbitrary: D rule: kahn.induct)
  case (1 G indeg)
  then show ?case by (auto split: if_splits)
next
  case (2 G indeg n q)
  note step = kahn_inv_step [OF "2.prems"(1) "2.prems"(2)]
  from "2.prems"(3) step(1) have
    rec: "kahn G (\<lambda>v. if v \<in> set (successors G n) then indeg v - 1 else indeg v)
            (q @ filter (\<lambda>c. indeg c = 1) (successors G n)) = Inl e"
    by (auto split: sum.splits)
  from "2.IH" [OF step(1) refl "2.prems"(1) step(2) rec] show ?case .
qed

lemma kahn_complete:
  "wf_graph G \<Longrightarrow> kahn_inv G indeg q D \<Longrightarrow> acyclic (edge_rel G) \<Longrightarrow>
   \<exists>out. kahn G indeg q = Inr out"
proof (induction G indeg q arbitrary: D rule: kahn.induct)
  case (1 G indeg)
  have "indeg v = 0" if v: "v \<in> set (task_names G)" for v
  proof (rule ccontr)
    assume nz: "indeg v \<noteq> 0"
    let ?S = "{v \<in> set (task_names G). indeg v \<noteq> 0}"
    have fin: "finite (edge_rel G)"
    proof (rule finite_subset)
      show "edge_rel G \<subseteq> set (map (\<lambda>(a, b, c). (a, b)) (g_edges G))"
        by (force simp: edge_rel_def successors_def)
    qed simp
    have "wf (edge_rel G)" by (rule finite_acyclic_wf [OF fin "1.prems"(3)])
    moreover have "v \<in> ?S" using v nz by simp
    ultimately obtain m where m: "m \<in> ?S" and least: "\<And>y. (y, m) \<in> edge_rel G \<Longrightarrow> y \<notin> ?S"
      by (rule wfE_min) blast
    from m "1.prems"(2) have "pending G D m \<noteq> 0" by (simp add: kahn_inv_def)
    then obtain u where u: "u \<in> set (predecessors G m)" "u \<notin> D"
      by (auto simp: pending_zero)
    then have "(u, m) \<in> edge_rel G" by (simp add: edge_rel_def succ_pred_iff)
    from least [OF this] wf_predecessors_nodes [OF "1.prems"(1), of m] u(1)
    have "indeg u = 0" "u \<in> set (task_names G)" by auto
    with "1.prems"(2) u(2) show False by (auto simp: kahn_inv_def)
  qed
  then show ?case by (simp add: list_ex_iff)
next
  case (2 G indeg n q)
  note step = kahn_inv_step [OF "2.prems"(1) "2.prems"(2)]
  from "2.IH" [OF step(1) refl "2.prems"(1) step(2) "2.prems"(3)] step(1)
  show ?case by auto
qed

lemma initial_kahn_inv:
  assumes wf: "wf_graph G"
  shows "kahn_inv G (\<lambda>v. if v \<in> set (task_names G) then in_degree G v else 0)
           (filter (\<lambda>v. in_degree G v = 0) (task_names G)) {}"
proof -
  have "\<forall>v. (if v \<in> set (task_names G) then in_degree G v else 0) = pending G {} v"
    using wf_pred_of_nonnode [OF wf] by (auto simp: pending_def in_degree_def)
  moreover have "distinct (filter (\<lambda>v. in_degree G v = 0) (task_names G))"
    using wf by (simp add: wf_graph_def)
  ultimately show ?thesis unfolding kahn_inv_def by auto
qed

lemma topological_sort_sound:
  assumes wf: "wf_graph G" and ts: "topological_sort G = Inr tasks"
  shows "preds_first G {} tasks \<and> distinct tasks \<and> set tasks = set (task_names G)"
  using kahn_sound [OF wf initial_kahn_inv [OF wf], of tasks] ts
  by (auto simp: topological_sort_def)

lemma topological_sort_error:
  assumes wf: "wf_graph G" and ts: "topological_sort G = Inl e"
  shows "e = NetworkXUnfeasible"
  using kahn_no_runtime_error [OF wf initial_kahn_inv [OF wf], of e] ts
  by (simp add: topological_sort_def)

lemma topological_sort_complete:
  assumes wf: "wf_graph G" and ac: "acyclic (edge_rel G)"
  shows "\<exists>tasks. topological_sort G = Inr tasks"
  using kahn_complete [OF wf initial_kahn_inv [OF wf] ac]
  by (simp add: topological_sort_def)

section \<open>Basic facts\<close>

lemma bnd_Inr [simp]: "bnd (Inr x) f = f x"
  by (simp add: bnd_def)

lemma bnd_Inl [simp]: "bnd (Inl e) f = Inl e"
  by (simp add: bnd_def)

lemma bnd_eq_Inr: "bnd m f = Inr y \<longleftrightarrow> (\<exists>x. m = Inr x \<and> f x = Inr y)"
  by (cases m) auto

lemma fold_max_ge_init: "(a::real) \<le> fold max xs a"
proof (induction xs arbitrary: a)
  case Nil
  show ?case by simp
next
  case (Cons x xs)
  have "a \<le> max x a" by simp
  also have "\<dots> \<le> fold max xs (max x a)" by (rule Cons.IH)
  finally show ?case by simp
qed

lemma fold_max_ge_elem: "(x::real) \<in> set xs \<Longrightarrow> x \<le> fold max xs a"
proof (induction xs arbitrary: a)
  case Nil
  then show ?case by simp
next
  case (Cons y ys)
  show ?case
  proof (cases "x = y")
    case True
    have "x \<le> max y a" using True by simp
    also have "\<dots> \<le> fold max ys (max y a)" by (rule fold_max_ge_init)
    finally show ?thesis by simp
  next
    case False
    with Cons.prems have "x \<in> set ys" by simp
    from Cons.IH [OF this] show ?thesis by simp
  qed
qed

lemma ready_time_nonneg: "0 \<le> ready_time_of finish ps"
  unfolding ready_time_of_def by (rule fold_max_ge_init)

lemma ready_time_ge: "p \<in> set ps \<Longrightarrow> finish p = Some f \<Longrightarrow> f \<le> ready_time_of finish ps"
  unfolding ready_time_of_def by (rule fold_max_ge_elem) force

section \<open>The graph after normalisation\<close>

lemma normalize_names [simp]: "task_names (normalize_execution_times G) = task_names G"
  by (simp add: normalize_execution_times_def task_names_def comp_def case_prod_beta)

lemma normalize_edges [simp]: "g_edges (normalize_execution_times G) = g_edges G"
  by (simp add: normalize_execution_times_def)

lemma normalize_predecessors [simp]: "predecessors (normalize_execution_times G) = predecessors G"
  by (simp add: predecessors_def fun_eq_iff)

lemma normalize_successors [simp]: "successors (normalize_execution_times G) = successors G"
  by (simp add: successors_def fun_eq_iff)

lemma normalize_wf [simp]: "wf_graph (normalize_execution_times G) = wf_graph G"
  by (simp add: wf_graph_def)

lemma normalize_in_degree [simp]: "in_degree (normalize_execution_times G) = in_degree G"
  by (simp add: in_degree_def fun_eq_iff)

lemma kahn_normalize: "kahn (normalize_execution_times G) indeg q = kahn G indeg q"
  by (induction G indeg q rule: kahn.induct) (simp_all split: sum.splits)

lemma normalize_topological_sort [simp]:
  "topological_sort (normalize_execution_times G) = topological_sort G"
  by (simp add: topological_sort_def kahn_normalize cong: if_cong)

lemma normalize_attrs_id:
  "(\<forall>e. exec_time a = Some e \<longrightarrow> 0.1 \<le> e) \<Longrightarrow> normalize_attrs a = a"
  by (auto simp: normalize_attrs_def split: option.splits)

lemma normalize_id:
  assumes "\<forall>(t, a) \<in> set (g_nodes G). \<forall>e. exec_time a = Some e \<longrightarrow> 0.1 \<le> e"
  shows "normalize_execution_times G = G"
proof -
  have "map (\<lambda>(t, a). (t, normalize_attrs a)) (g_nodes G) = map (\<lambda>x. x) (g_nodes G)"
    using assms by (intro map_cong) (auto simp: normalize_attrs_id)
  then show ?thesis by (simp add: normalize_execution_times_def)
qed

lemma schedule_fcfs_graph: "schedule_fcfs G n = Inr (res, G') \<Longrightarrow> G' = normalize_execution_times G"
  by (auto simp: schedule_fcfs_def Let_def bnd_eq_Inr)

section \<open>FCFS on the diamond graph\<close>

text \<open>
  C5 (as stated).  The claim has B on node 0 and C on node 1.  When B is visited node 0
  is busy until 1 and node 1 is idle since 0, so the node of smallest availability is
  node 1: FCFS does not put B on node 0, nor C on node 1.
\<close>

theorem fcfs_diamond_counterexample:
  "map_option assigned_node (fcfs_info_of diamond 2 ''B'') \<noteq> Some 0 \<and>
   map_option assigned_node (fcfs_info_of diamond 2 ''C'') \<noteq> Some 1"
  by code_simp

text \<open>
  C5 (amended).  On the diamond graph with unit durations and two nodes of powers
  \<open>[1.0, 1.2]\<close>, FCFS runs A on node 0 over [0,1], B on node 1 over [1,2], C on node 0
  over [1,2] and D on node 0 over [2,3]; the makespan is 3 (and the energy 4.2), and
  the graph is left as it was.
\<close>

theorem fcfs_diamond_schedule:
  "schedule_fcfs diamond 2 = Inr
     (\<lparr>res_makespan = 3, res_energy = 4.2,
       res_schedule =
         [(''A'', \<lparr>assigned_node = 0, start_time = 0, end_time = 1, info_exec_time = 1, ready_time = 0\<rparr>),
          (''B'', \<lparr>assigned_node = 1, start_time = 1, end_time = 2, info_exec_time = 1, ready_time = 1\<rparr>),
          (''C'', \<lparr>assigned_node = 0, start_time = 1, end_time = 2, info_exec_time = 1, ready_time = 1\<rparr>),
          (''D'', \<lparr>assigned_node = 0, start_time = 2, end_time = 3, info_exec_time = 1, ready_time = 2\<rparr>)],
       res_node_powers = [1, 1.2]\<rparr>, diamond)"
  by code_simp

section \<open>The critical length is not a lower bound\<close>

text \<open>
  C1.  On the chain A \<open>\<rightarrow>\<close> B with durations 5 and 1, \<open>find_critical_path\<close> marks no task
  as critical, falls back to the first task A and returns the largest earliest start
  (5) plus the duration of A (5), that is 10.  The evaluator with both tasks on node 0,
  FCFS and HEFT (two nodes) all finish the chain at time 6, below the critical length.
\<close>

theorem critical_length_exceeds_makespan:
  "topological_sort chain2 = Inr [''A'', ''B''] \<and>
   find_critical_path chain2 [''A'', ''B''] = Inr ([''A''], 10) \<and>
   evaluate_schedule chain2 [''A'', ''B''] 2 [''A'' \<mapsto> 0, ''B'' \<mapsto> 0] = Inr (6, 6) \<and>
   fcfs_makespan_of chain2 2 = Some 6 \<and>
   map_sum id (get_makespan 1000) (heft_schedule 1000 2 1000 chain2) = Inr 6"
  by code_simp

section \<open>Early stopping of the optimisation loop\<close>

text \<open>
  C2.  One particle on three independent unit tasks and two nodes, 200 iterations
  allowed; the critical length is 1.  With the draws \<open>stagnation_draws\<close> the best
  makespan is 3 up to iteration 19 and improves to 2 in iteration 20.  The loop breaks
  at iteration 20: the history then holds 21 entries, the minimum of its last 20
  entries is the entry just appended, so the "recent improvement" is 0 although the
  best makespan has just improved by 1 and is not within 0.1 of the critical length.
\<close>

theorem stagnation_stops_despite_improvement:
  "bnd (QIPSO_init three_tasks 2 1 200 1.7 1.7 0.3) (\<lambda>(q, st).
     map_sum id (\<lambda>(st', r). (critical_length q, r, map fst (convergence_history st')))
       (run_optimization q stagnation_draws st))
   = Inr (1, Some 20, replicate 20 (Some 3) @ [Some 2])"
  by code_simp

section \<open>The effect of FCFS on its input graph\<close>

text \<open>
  C9 (as stated).  For a single task with \<open>exec_time = 0.05\<close> the call returns, and the
  graph it leaves has \<open>exec_time = 0.1\<close>: the attribute was overwritten.
\<close>

theorem schedule_fcfs_mutates_counterexample:
  "map_sum id snd (schedule_fcfs (single_task (1/20)) 2) = Inr (single_task (1/10)) \<and>
   single_task (1/10) \<noteq> single_task (1/20)"
  by code_simp

text \<open>
  C9 (amended).  A call to \<open>schedule_fcfs\<close> that returns changes the graph only through
  \<open>normalize_execution_times\<close>: edges, node names, their order and \<open>comp_cost\<close> are kept,
  and every defined \<open>exec_time\<close> \<open>e\<close> becomes \<open>max(0.1, e)\<close>.  In particular the graph is
  unchanged when every defined \<open>exec_time\<close> is at least 0.1.
\<close>

theorem schedule_fcfs_graph_effect:
  assumes "schedule_fcfs G n = Inr (res, G')"
  shows "g_edges G' = g_edges G \<and> length (g_nodes G') = length (g_nodes G) \<and>
         (i < length (g_nodes G) \<longrightarrow>
            fst (g_nodes G' ! i) = fst (g_nodes G ! i) \<and>
            comp_cost (snd (g_nodes G' ! i)) = comp_cost (snd (g_nodes G ! i)) \<and>
            exec_time (snd (g_nodes G' ! i)) = map_option (max 0.1) (exec_time (snd (g_nodes G ! i)))) \<and>
         ((\<forall>(t, a) \<in> set (g_nodes G). \<forall>e. exec_time a = Some e \<longrightarrow> 0.1 \<le> e) \<longrightarrow> G' = G)"
proof -
  have G': "G' = normalize_execution_times G" by (rule schedule_fcfs_graph [OF assms])
  have attrs: "comp_cost (normalize_attrs a) = comp_cost a \<and>
               exec_time (normalize_attrs a) = map_option (max 0.1) (exec_time a)" for a
    by (cases "exec_time a") (auto simp: normalize_attrs_def)
  have nth: "i < length (g_nodes G) \<Longrightarrow>
             g_nodes G' ! i = (fst (g_nodes G ! i), normalize_attrs (snd (g_nodes G ! i)))"
    by (simp add: G' normalize_execution_times_def case_prod_beta)
  show ?thesis
    using normalize_id [of G] attrs nth by (auto simp: G' normalize_execution_times_def)
qed

theorem schedule_fcfs_graph_effect_witness:
  "schedule_fcfs (single_task (1/20)) 2 = Inr
     (\<lparr>res_makespan = 1/10, res_energy = 1/10,
       res_schedule = [(''A'', \<lparr>assigned_node = 0, start_time = 0, end_time = 1/10,
                               info_exec_time = 1/10, ready_time = 0\<rparr>)],
       res_node_powers = [1, 1.2]\<rparr>, single_task (1/10)) \<and>
   (0::nat) < length (g_nodes (single_task (1/20))) \<and>
   exec_time (snd (g_nodes (single_task (1/10)) ! 0))
     = map_option (max 0.1) (exec_time (snd (g_nodes (single_task (1/20)) ! 0))) \<and>
   schedule_fcfs (single_task 1) 2 = Inr
     (\<lparr>res_makespan = 1, res_energy = 1,
       res_schedule = [(''A'', \<lparr>assigned_node = 0, start_time = 0, end_time = 1,
                               info_exec_time = 1, ready_time = 0\<rparr>)],
       res_node_powers = [1, 1.2]\<rparr>, single_task 1) \<and>
   exec_time (task_of 1) = Some 1 \<and> (0.1::real) \<le> 1 \<and>
   g_edges (single_task 1) = g_edges (single_task 1)"
proof -
  have h1: "schedule_fcfs (single_task (1/20)) 2 = Inr
     (\<lparr>res_makespan = 1/10, res_energy = 1/10,
       res_schedule = [(''A'', \<lparr>assigned_node = 0, start_time = 0, end_time = 1/10,
                               info_exec_time = 1/10, ready_time = 0\<rparr>)],
       res_node_powers = [1, 1.2]\<rparr>, single_task (1/10))"
    by code_simp
  have h2: "schedule_fcfs (single_task 1) 2 = Inr
     (\<lparr>res_makespan = 1, res_energy = 1,
       res_schedule = [(''A'', \<lparr>assigned_node = 0, start_time = 0, end_time = 1,
                               info_exec_time = 1, ready_time = 0\<rparr>)],
       res_node_powers = [1, 1.2]\<rparr>, single_task 1)"
    by code_simp
  have len: "(0::nat) < length (g_nodes (single_task (1/20)))" by (simp add: single_task_def)
  from schedule_fcfs_graph_effect [OF h1, of 0] len
  have e1: "exec_time (snd (g_nodes (single_task (1/10)) ! 0))
     = map_option (max 0.1) (exec_time (snd (g_nodes (single_task (1/20)) ! 0)))"
    by blast
  from schedule_fcfs_graph_effect [OF h2, of 0]
  have e2: "g_edges (single_task 1) = g_edges (single_task 1)" by blast
  show ?thesis using h1 h2 len e1 e2 by (simp add: task_of_def)
qed

section \<open>A successful topological sort certifies acyclicity\<close>

lemma preds_first_before:
  "preds_first G D ts \<Longrightarrow> v \<in> set ts \<Longrightarrow> u \<in> set (predecessors G v) \<Longrightarrow>
   u \<in> D \<or> (\<exists>i j. i < j \<and> j < length ts \<and> ts ! i = u \<and> ts ! j = v)"
proof (induction ts arbitrary: D)
  case Nil
  then show ?case by simp
next
  case (Cons n r)
  show ?case
  proof (cases "v = n")
    case True
    with Cons.prems show ?thesis by auto
  next
    case False
    with Cons.prems have v: "v \<in> set r" and pf: "preds_first G (insert n D) r" by auto
    from Cons.IH [OF pf v Cons.prems(3)]
    consider "u = n" | "u \<in> D" | i j where "i < j" "j < length r" "r ! i = u" "r ! j = v"
      by auto
    then show ?thesis
    proof cases
      case 1
      from v obtain j where "j < length r" "r ! j = v" by (auto simp: in_set_conv_nth)
      with 1 have "0 < Suc j \<and> Suc j < length (n # r) \<and> (n # r) ! 0 = u \<and> (n # r) ! Suc j = v"
        by simp
      then show ?thesis by blast
    next
      case 2
      then show ?thesis by simp
    next
      case 3
      then have "Suc i < Suc j \<and> Suc j < length (n # r) \<and> (n # r) ! Suc i = u \<and> (n # r) ! Suc j = v"
        by simp
      then show ?thesis by blast
    qed
  qed
qed

lemma topological_sort_acyclic:
  assumes wf: "wf_graph G" and ts: "topological_sort G = Inr tasks"
  shows "acyclic (edge_rel G)"
proof -
  from topological_sort_sound [OF wf ts]
  have pf: "preds_first G {} tasks" and d: "distinct tasks" and s: "set tasks = set (task_names G)"
    by auto
  have edge: "\<exists>i j. i < j \<and> j < length tasks \<and> tasks ! i = u \<and> tasks ! j = v"
    if "(u, v) \<in> edge_rel G" for u v
  proof -
    from that have uv: "u \<in> set (predecessors G v)" by (simp add: edge_rel_def succ_pred_iff)
    from that wf_successors_nodes [OF wf, of u] have "v \<in> set tasks" by (auto simp: edge_rel_def s)
    from preds_first_before [OF pf this uv] show ?thesis by simp
  qed
  have path: "\<exists>i j. i < j \<and> j < length tasks \<and> tasks ! i = u \<and> tasks ! j = v"
    if "(u, v) \<in> (edge_rel G)\<^sup>+" for u v
    using that
  proof (induction rule: trancl_induct)
    case (base y)
    then show ?case by (rule edge)
  next
    case (step y z)
    from step.IH obtain i j where ij: "i < j" "j < length tasks" "tasks ! i = u" "tasks ! j = y"
      by blast
    from edge [OF step.hyps(2)] obtain k l where
      kl: "k < l" "l < length tasks" "tasks ! k = y" "tasks ! l = z" by blast
    from kl have k: "k < length tasks" by simp
    from ij(4) kl(3) have "tasks ! j = tasks ! k" by simp
    then have "j = k" using nth_eq_iff_index_eq [OF d ij(2) k] by simp
    with ij kl have "i < l \<and> l < length tasks \<and> tasks ! i = u \<and> tasks ! l = z" by simp
    then show ?case by blast
  qed
  show ?thesis
  proof (rule acyclicI, intro allI notI)
    fix x assume "(x, x) \<in> (edge_rel G)\<^sup>+"
    from path [OF this] obtain i j where "i < j" "j < length tasks" "tasks ! i = tasks ! j"
      by auto
    with d show False by (simp add: nth_eq_iff_index_eq)
  qed
qed

lemma topological_sort_cyclic:
  assumes wf: "wf_graph G" and cyc: "\<not> acyclic (edge_rel G)"
  shows "topological_sort G = Inl NetworkXUnfeasible"
proof (cases "topological_sort G")
  case (Inl e)
  with topological_sort_error [OF wf Inl] show ?thesis by simp
next
  case (Inr tasks)
  from topological_sort_acyclic [OF wf Inr] cyc show ?thesis by simp
qed

section \<open>A graph with a cycle\<close>

lemma two_cycle_cyclic: "\<not> acyclic (edge_rel two_cycle)"
proof -
  have "(''A'', ''B'') \<in> edge_rel two_cycle" "(''B'', ''A'') \<in> edge_rel two_cycle"
    by (simp_all add: edge_rel_def two_cycle_def successors_def)
  then have "(''A'', ''A'') \<in> (edge_rel two_cycle)\<^sup>+" by (rule trancl_into_trancl2 [OF _ r_into_trancl])
  then show ?thesis by (auto simp: acyclic_def)
qed

lemma two_cycle_wf: "wf_graph two_cycle"
  by (simp add: wf_graph_def two_cycle_def task_names_def)

section \<open>Invariants of the FCFS loop\<close>

lemma precedence_ok_add:
  assumes ok: "precedence_ok G m" and new: "m t = None"
    and preds: "\<forall>p \<in> set (predecessors G t). \<exists>pinfo. m p = Some pinfo \<and> end_time pinfo \<le> start_time info"
  shows "precedence_ok G (m(t \<mapsto> info))"
  unfolding precedence_ok_def
proof (intro allI impI ballI)
  fix t' info' p
  assume t': "(m(t \<mapsto> info)) t' = Some info'" and p: "p \<in> set (predecessors G t')"
  have "\<exists>pinfo. m p = Some pinfo \<and> end_time pinfo \<le> start_time info'"
  proof (cases "t' = t")
    case True
    with t' preds p show ?thesis by auto
  next
    case False
    with t' have "m t' = Some info'" by simp
    with ok p show ?thesis unfolding precedence_ok_def by blast
  qed
  then obtain pinfo where pi: "m p = Some pinfo" "end_time pinfo \<le> start_time info'" by blast
  with new have "p \<noteq> t" by auto
  with pi show "\<exists>pinfo. (m(t \<mapsto> info)) p = Some pinfo \<and> end_time pinfo \<le> start_time info'"
    by simp
qed

lemma fold_pick_mem: "fold (\<lambda>j b. if P j b then j else b) r i \<in> set (i # r)"
proof (induction r arbitrary: i)
  case Nil
  show ?case by simp
next
  case (Cons x r)
  from Cons.IH [of "if P x i then x else i"] show ?case by (auto split: if_splits)
qed

lemma best_node_of_lt: "best_node_of avail n = Inr b \<Longrightarrow> b < n"
proof -
  assume a: "best_node_of avail n = Inr b"
  then obtain i r where ir: "[0..<n] = i # r"
    and b: "b = fold (\<lambda>j b. if avail ! j < avail ! b then j else b) r i"
    by (auto simp: best_node_of_def split: list.splits)
  from fold_pick_mem [of "\<lambda>j b. avail ! j < avail ! b" r i] b have "b \<in> set (i # r)" by simp
  with ir have "b \<in> set [0..<n]" by simp
  then show ?thesis by simp
qed

lemma best_node_of_ok: "0 < n \<Longrightarrow> \<exists>b. best_node_of avail n = Inr b"
  by (cases "[0..<n]") (auto simp: best_node_of_def)

lemma node_data_ok: "t \<in> set (task_names G) \<Longrightarrow> \<exists>a. node_data G t = Inr a"
proof -
  assume "t \<in> set (task_names G)"
  then have "map_of (g_nodes G) t \<noteq> None"
    by (simp add: task_names_def map_of_eq_None_iff)
  then show ?thesis by (auto simp: node_data_def lookup_def)
qed

lemma fcfs_step_inv:
  assumes inv: "fcfs_inv G n st" and step: "fcfs_step G n t st = Inr st'"
    and new: "map_of (schedule st) t = None"
    and preds: "set (predecessors G t) \<subseteq> dom (map_of (schedule st))"
  shows "fcfs_inv G n st' \<and> dom (map_of (schedule st')) = insert t (dom (map_of (schedule st)))"
proof -
  from step obtain a best where a: "node_data G t = Inr a"
    and best: "best_node_of (node_available_time st) n = Inr best"
    and st': "st' = \<lparr>node_available_time = (node_available_time st)[best :=
                       max (ready_time_of (task_finish_times st) (predecessors G t))
                           (node_available_time st ! best) + eval_duration a],
                    schedule = AList.update t
                       \<lparr>assigned_node = best,
                        start_time = max (ready_time_of (task_finish_times st) (predecessors G t))
                                         (node_available_time st ! best),
                        end_time = max (ready_time_of (task_finish_times st) (predecessors G t))
                                       (node_available_time st ! best) + eval_duration a,
                        info_exec_time = eval_duration a,
                        ready_time = ready_time_of (task_finish_times st) (predecessors G t)\<rparr>
                       (schedule st),
                    task_finish_times = (task_finish_times st)(t \<mapsto>
                        max (ready_time_of (task_finish_times st) (predecessors G t))
                            (node_available_time st ! best) + eval_duration a)\<rparr>"
    by (auto simp: fcfs_step_def bnd_eq_Inr Let_def)
  let ?ready = "ready_time_of (task_finish_times st) (predecessors G t)"
  let ?start = "max ?ready (node_available_time st ! best)"
  let ?info = "\<lparr>assigned_node = best, start_time = ?start, end_time = ?start + eval_duration a,
                info_exec_time = eval_duration a, ready_time = ?ready\<rparr>"
  let ?m = "map_of (schedule st)"
  have m': "map_of (schedule st') = ?m(t \<mapsto> ?info)"
    by (simp add: st' update_conv')
  have fin: "\<And>u. task_finish_times st u = map_option end_time (?m u)"
    using inv by (simp add: fcfs_inv_def)
  have pre: "\<forall>p \<in> set (predecessors G t). \<exists>pinfo. ?m p = Some pinfo \<and> end_time pinfo \<le> start_time ?info"
  proof
    fix p assume p: "p \<in> set (predecessors G t)"
    with preds obtain pinfo where pi: "?m p = Some pinfo" by auto
    then have "task_finish_times st p = Some (end_time pinfo)" by (simp add: fin)
    with p have "end_time pinfo \<le> ?ready" by (rule ready_time_ge)
    then have "end_time pinfo \<le> ?start" by simp
    with pi show "\<exists>pinfo. ?m p = Some pinfo \<and> end_time pinfo \<le> start_time ?info" by simp
  qed
  have ok: "precedence_ok G (map_of (schedule st'))"
    unfolding m' using inv new pre by (intro precedence_ok_add) (simp_all add: fcfs_inv_def)
  have len: "length (node_available_time st') = n" using inv by (simp add: st' fcfs_inv_def)
  have dist: "distinct (map fst (schedule st'))"
    using inv by (simp add: st' fcfs_inv_def distinct_update)
  have fin': "\<forall>u. task_finish_times st' u = map_option end_time (map_of (schedule st') u)"
    unfolding m' by (simp add: st' fin)
  have each: "\<forall>u info. map_of (schedule st') u = Some info \<longrightarrow>
        assigned_node info < n \<and>
        (\<exists>a. node_data G u = Inr a \<and> info_exec_time info = eval_duration a \<and>
             end_time info = start_time info + eval_duration a)"
  proof (intro allI impI)
    fix u info assume u: "map_of (schedule st') u = Some info"
    show "assigned_node info < n \<and>
        (\<exists>a. node_data G u = Inr a \<and> info_exec_time info = eval_duration a \<and>
             end_time info = start_time info + eval_duration a)"
    proof (cases "u = t")
      case True
      with u m' have "info = ?info" by simp
      with True a best_node_of_lt [OF best] show ?thesis by simp
    next
      case False
      with u m' have "?m u = Some info" by simp
      with inv show ?thesis unfolding fcfs_inv_def by blast
    qed
  qed
  from len dist fin' ok each have "fcfs_inv G n st'" unfolding fcfs_inv_def by blast
  moreover have "dom (map_of (schedule st')) = insert t (dom ?m)" unfolding m' by simp
  ultimately show ?thesis by blast
qed

lemma fcfs_loop_inv:
  "fcfs_loop G n ts st = Inr st' \<Longrightarrow> fcfs_inv G n st \<Longrightarrow>
   preds_first G (dom (map_of (schedule st))) ts \<Longrightarrow> distinct ts \<Longrightarrow>
   set ts \<inter> dom (map_of (schedule st)) = {} \<Longrightarrow>
   fcfs_inv G n st' \<and> dom (map_of (schedule st')) = dom (map_of (schedule st)) \<union> set ts"
proof (induction ts arbitrary: st)
  case Nil
  then show ?case by simp
next
  case (Cons t ts)
  from Cons.prems(1) obtain st1 where s1: "fcfs_step G n t st = Inr st1"
    and rest: "fcfs_loop G n ts st1 = Inr st'"
    by (auto simp: bnd_eq_Inr)
  from Cons.prems(5) have new: "map_of (schedule st) t = None" by auto
  from Cons.prems(3) have preds: "set (predecessors G t) \<subseteq> dom (map_of (schedule st))"
    and pf: "preds_first G (insert t (dom (map_of (schedule st)))) ts" by auto
  from fcfs_step_inv [OF Cons.prems(2) s1 new preds]
  have inv1: "fcfs_inv G n st1"
    and dom1: "dom (map_of (schedule st1)) = insert t (dom (map_of (schedule st)))" by auto
  from Cons.prems(4,5) have d: "distinct ts" and disj: "set ts \<inter> dom (map_of (schedule st1)) = {}"
    unfolding dom1 by auto
  from Cons.IH [OF rest inv1 _ d disj] pf dom1 show ?case by auto
qed

lemma fcfs_step_ok:
  assumes "t \<in> set (task_names G)" "0 < n"
  shows "\<exists>st'. fcfs_step G n t st = Inr st' \<and>
               length (node_available_time st') = length (node_available_time st)"
proof -
  from node_data_ok [OF assms(1)] obtain a where "node_data G t = Inr a" by blast
  moreover from best_node_of_ok [OF assms(2)] obtain b where
    "best_node_of (node_available_time st) n = Inr b" by blast
  ultimately show ?thesis by (simp add: fcfs_step_def Let_def)
qed

lemma fcfs_loop_ok:
  "set ts \<subseteq> set (task_names G) \<Longrightarrow> 0 < n \<Longrightarrow> \<exists>st'. fcfs_loop G n ts st = Inr st'"
proof (induction ts arbitrary: st)
  case Nil
  show ?case by simp
next
  case (Cons t ts)
  from Cons.prems have "t \<in> set (task_names G)" by simp
  from fcfs_step_ok [OF this Cons.prems(2)] obtain st1 where "fcfs_step G n t st = Inr st1"
    by blast
  with Cons.IH [of st1] Cons.prems show ?case by auto
qed

lemma energy_loop_sum:
  "energy_loop sched powers acc = Inr e \<Longrightarrow> e = acc + recomputed_energy sched powers"
proof (induction sched arbitrary: acc)
  case Nil
  then show ?case by (simp add: recomputed_energy_def)
next
  case (Cons x sched)
  obtain t info where x: "x = (t, info)" by (cases x)
  from Cons.prems x have
    "energy_loop sched powers (acc + (end_time info - start_time info) * powers ! assigned_node info) = Inr e"
    by (auto split: if_splits)
  from Cons.IH [OF this] x show ?case by (simp add: recomputed_energy_def)
qed

lemma energy_loop_ok:
  "\<forall>(t, info) \<in> set sched. assigned_node info < length powers \<Longrightarrow>
   \<exists>e. energy_loop sched powers acc = Inr e"
proof (induction sched arbitrary: acc)
  case Nil
  show ?case by simp
next
  case (Cons x sched)
  obtain t info where x: "x = (t, info)" by (cases x)
  with Cons.prems have "assigned_node info < length powers"
    and "\<forall>(t, info) \<in> set sched. assigned_node info < length powers" by auto
  with Cons.IH x show ?case by simp
qed

lemma initial_fcfs_inv:
  "fcfs_inv G n \<lparr>node_available_time = replicate n 0, schedule = [], task_finish_times = Map.empty\<rparr>"
  by (simp add: fcfs_inv_def precedence_ok_def)

lemma schedule_fcfs_inv:
  assumes wf: "wf_graph G" and run: "schedule_fcfs G n = Inr (res, G')"
  shows "\<exists>st. fcfs_inv (normalize_execution_times G) n st \<and> res_schedule res = schedule st \<and>
              dom (map_of (schedule st)) = set (task_names G) \<and>
              py_max (node_available_time st) = Inr (res_makespan res) \<and>
              calculate_energy_consumption (schedule st) (default_node_powers n) = Inr (res_energy res) \<and>
              res_node_powers res = default_node_powers n"
proof -
  let ?G = "normalize_execution_times G"
  let ?init = "\<lparr>node_available_time = replicate n 0, schedule = [], task_finish_times = Map.empty\<rparr>"
  from run obtain tasks st mk en where ts: "topological_sort G = Inr tasks"
    and loop: "fcfs_loop ?G n tasks ?init = Inr st"
    and mk: "py_max (node_available_time st) = Inr mk"
    and en: "calculate_energy_consumption (schedule st) (default_node_powers n) = Inr en"
    and res: "res = \<lparr>res_makespan = mk, res_energy = en, res_schedule = schedule st,
                     res_node_powers = default_node_powers n\<rparr>"
    by (auto simp: schedule_fcfs_def Let_def bnd_eq_Inr)
  have wf': "wf_graph ?G" using wf by simp
  have ts': "topological_sort ?G = Inr tasks" using ts by simp
  from topological_sort_sound [OF wf' ts']
  have pf: "preds_first ?G {} tasks" and d: "distinct tasks" and s: "set tasks = set (task_names G)"
    by auto
  from fcfs_loop_inv [OF loop initial_fcfs_inv] pf d
  have "fcfs_inv ?G n st" "dom (map_of (schedule st)) = set tasks" by auto
  with s mk en res show ?thesis by auto
qed

lemma schedule_fcfs_ok:
  assumes wf: "wf_graph G" and ac: "acyclic (edge_rel G)" and n: "0 < n"
  shows "\<exists>r. schedule_fcfs G n = Inr r"
proof -
  let ?G = "normalize_execution_times G"
  let ?init = "\<lparr>node_available_time = replicate n 0, schedule = [], task_finish_times = Map.empty\<rparr>"
  from topological_sort_complete [OF wf ac] obtain tasks where ts: "topological_sort G = Inr tasks"
    by blast
  have wf': "wf_graph ?G" using wf by simp
  have ts': "topological_sort ?G = Inr tasks" using ts by simp
  from topological_sort_sound [OF wf' ts']
  have pf: "preds_first ?G {} tasks" and d: "distinct tasks" and s: "set tasks = set (task_names ?G)"
    by auto
  from fcfs_loop_ok [of tasks ?G n ?init] s n obtain st where loop: "fcfs_loop ?G n tasks ?init = Inr st"
    by auto
  from fcfs_loop_inv [OF loop initial_fcfs_inv] pf d have inv: "fcfs_inv ?G n st" by auto
  then have len: "length (node_available_time st) = n" by (simp add: fcfs_inv_def)
  with n obtain mk where mk: "py_max (node_available_time st) = Inr mk"
    by (cases "node_available_time st") (auto simp: py_max_def)
  have "\<forall>(t, info) \<in> set (schedule st). assigned_node info < length (default_node_powers n)"
  proof (clarify)
    fix t info assume "(t, info) \<in> set (schedule st)"
    with inv have "map_of (schedule st) t = Some info" by (simp add: fcfs_inv_def)
    with inv show "assigned_node info < length (default_node_powers n)"
      unfolding fcfs_inv_def default_node_powers_def by auto
  qed
  from energy_loop_ok [OF this, of 0] obtain en where
    "calculate_energy_consumption (schedule st) (default_node_powers n) = Inr en"
    by (auto simp: calculate_energy_consumption_def)
  with ts loop mk show ?thesis by (simp add: schedule_fcfs_def Let_def)
qed

section \<open>Invariants of the evaluator loop\<close>

lemma eval_step_inv:
  assumes inv: "eval_inv G n assignment st"
    and step: "eval_step G (default_node_powers n) assignment t st = Inr st'"
    and new: "map_of (ev_trace st) t = None"
    and preds: "set (predecessors G t) \<subseteq> dom (map_of (ev_trace st))"
  shows "eval_inv G n assignment st' \<and> dom (map_of (ev_trace st')) = insert t (dom (map_of (ev_trace st)))"
proof -
  let ?ready = "ready_time_of (ev_task_finish_times st) (predecessors G t)"
  from step obtain a node where a: "node_data G t = Inr a"
    and node: "assignment t = Some node"
    and lt: "node < length (device_end_times st)"
    and st': "st' = \<lparr>device_end_times = (device_end_times st)[node :=
                       max ?ready (device_end_times st ! node) + eval_duration a],
                    device_energy = (device_energy st)[node :=
                       device_energy st ! node + default_node_powers n ! node * eval_duration a],
                    ev_task_finish_times = (ev_task_finish_times st)(t \<mapsto>
                       max ?ready (device_end_times st ! node) + eval_duration a),
                    ev_trace = AList.update t
                       \<lparr>assigned_node = node,
                        start_time = max ?ready (device_end_times st ! node),
                        end_time = max ?ready (device_end_times st ! node) + eval_duration a,
                        info_exec_time = eval_duration a, ready_time = ?ready\<rparr>
                       (ev_trace st)\<rparr>"
    by (auto simp: eval_step_def bnd_eq_Inr Let_def lookup_def split: option.splits if_splits)
  let ?start = "max ?ready (device_end_times st ! node)"
  let ?info = "\<lparr>assigned_node = node, start_time = ?start, end_time = ?start + eval_duration a,
                info_exec_time = eval_duration a, ready_time = ?ready\<rparr>"
  let ?m = "map_of (ev_trace st)"
  have m': "map_of (ev_trace st') = ?m(t \<mapsto> ?info)"
    by (simp add: st' update_conv')
  have fin: "\<And>u. ev_task_finish_times st u = map_option end_time (?m u)"
    using inv by (simp add: eval_inv_def)
  have ltn: "node < n" using inv lt by (simp add: eval_inv_def)
  have pre: "\<forall>p \<in> set (predecessors G t). \<exists>pinfo. ?m p = Some pinfo \<and> end_time pinfo \<le> start_time ?info"
  proof
    fix p assume p: "p \<in> set (predecessors G t)"
    with preds obtain pinfo where pi: "?m p = Some pinfo" by auto
    then have "ev_task_finish_times st p = Some (end_time pinfo)" by (simp add: fin)
    with p have "end_time pinfo \<le> ?ready" by (rule ready_time_ge)
    then have "end_time pinfo \<le> ?start" by simp
    with pi show "\<exists>pinfo. ?m p = Some pinfo \<and> end_time pinfo \<le> start_time ?info" by simp
  qed
  have ok: "precedence_ok G (map_of (ev_trace st'))"
    unfolding m' using inv new pre by (intro precedence_ok_add) (simp_all add: eval_inv_def)
  have len: "length (device_end_times st') = n" "length (device_energy st') = n"
    using inv by (simp_all add: st' eval_inv_def)
  have dist: "distinct (map fst (ev_trace st'))"
    using inv by (simp add: st' eval_inv_def distinct_update)
  have fin': "\<forall>u. ev_task_finish_times st' u = map_option end_time (map_of (ev_trace st') u)"
    unfolding m' by (simp add: st' fin)
  have each: "\<forall>u info. map_of (ev_trace st') u = Some info \<longrightarrow>
        assigned_node info < n \<and> assignment u = Some (assigned_node info) \<and>
        (\<exists>a. node_data G u = Inr a \<and> info_exec_time info = eval_duration a \<and>
             end_time info = start_time info + eval_duration a)"
  proof (intro allI impI)
    fix u info assume u: "map_of (ev_trace st') u = Some info"
    show "assigned_node info < n \<and> assignment u = Some (assigned_node info) \<and>
        (\<exists>a. node_data G u = Inr a \<and> info_exec_time info = eval_duration a \<and>
             end_time info = start_time info + eval_duration a)"
    proof (cases "u = t")
      case True
      with u m' have "info = ?info" by simp
      with True a node ltn show ?thesis by simp
    next
      case False
      with u m' have "?m u = Some info" by simp
      with inv show ?thesis unfolding eval_inv_def by blast
    qed
  qed
  from len dist fin' ok each have "eval_inv G n assignment st'" unfolding eval_inv_def by blast
  moreover have "dom (map_of (ev_trace st')) = insert t (dom ?m)" unfolding m' by simp
  ultimately show ?thesis by blast
qed

lemma eval_loop_inv:
  "eval_loop G (default_node_powers n) assignment ts st = Inr st' \<Longrightarrow> eval_inv G n assignment st \<Longrightarrow>
   preds_first G (dom (map_of (ev_trace st))) ts \<Longrightarrow> distinct ts \<Longrightarrow>
   set ts \<inter> dom (map_of (ev_trace st)) = {} \<Longrightarrow>
   eval_inv G n assignment st' \<and> dom (map_of (ev_trace st')) = dom (map_of (ev_trace st)) \<union> set ts"
proof (induction ts arbitrary: st)
  case Nil
  then show ?case by simp
next
  case (Cons t ts)
  from Cons.prems(1) obtain st1 where s1: "eval_step G (default_node_powers n) assignment t st = Inr st1"
    and rest: "eval_loop G (default_node_powers n) assignment ts st1 = Inr st'"
    by (auto simp: bnd_eq_Inr)
  from Cons.prems(5) have new: "map_of (ev_trace st) t = None" by auto
  from Cons.prems(3) have preds: "set (predecessors G t) \<subseteq> dom (map_of (ev_trace st))"
    and pf: "preds_first G (insert t (dom (map_of (ev_trace st)))) ts" by auto
  from eval_step_inv [OF Cons.prems(2) s1 new preds]
  have inv1: "eval_inv G n assignment st1"
    and dom1: "dom (map_of (ev_trace st1)) = insert t (dom (map_of (ev_trace st)))" by auto
  from Cons.prems(4,5) have d: "distinct ts" and disj: "set ts \<inter> dom (map_of (ev_trace st1)) = {}"
    unfolding dom1 by auto
  from Cons.IH [OF rest inv1 _ d disj] pf dom1 show ?case by auto
qed

lemma eval_step_ok:
  assumes "t \<in> set (task_names G)" "assignment t = Some k" "k < n"
    "length (device_end_times st) = n"
  shows "\<exists>st'. eval_step G (default_node_powers n) assignment t st = Inr st' \<and>
               length (device_end_times st') = n"
proof -
  from node_data_ok [OF assms(1)] obtain a where "node_data G t = Inr a" by blast
  with assms(2-) show ?thesis
    by (simp add: eval_step_def Let_def lookup_def default_node_powers_def)
qed

lemma eval_loop_ok:
  "set ts \<subseteq> set (task_names G) \<Longrightarrow> \<forall>t \<in> set ts. \<exists>k. assignment t = Some k \<and> k < n \<Longrightarrow>
   length (device_end_times st) = n \<Longrightarrow>
   \<exists>st'. eval_loop G (default_node_powers n) assignment ts st = Inr st'"
proof (induction ts arbitrary: st)
  case Nil
  show ?case by simp
next
  case (Cons t ts)
  from Cons.prems obtain k where t: "t \<in> set (task_names G)" "assignment t = Some k" "k < n"
    by auto
  from eval_step_ok [where st = st and assignment = assignment and t = t, OF this Cons.prems(3)]
  obtain st1 where
    "eval_step G (default_node_powers n) assignment t st = Inr st1" "length (device_end_times st1) = n"
    by blast
  with Cons.IH [of st1] Cons.prems show ?case by auto
qed

lemma initial_eval_inv:
  "eval_inv G n assignment \<lparr>device_end_times = replicate n 0, device_energy = replicate n 0,
        ev_task_finish_times = Map.empty, ev_trace = []\<rparr>"
  by (simp add: eval_inv_def precedence_ok_def)

lemma eval_run_inv:
  assumes wf: "wf_graph G" and ts: "topological_sort G = Inr tasks"
    and run: "eval_run G tasks n assignment = Inr st"
  shows "eval_inv G n assignment st \<and> dom (map_of (ev_trace st)) = set (task_names G)"
proof -
  from topological_sort_sound [OF wf ts]
  have pf: "preds_first G {} tasks" and d: "distinct tasks" and s: "set tasks = set (task_names G)"
    by auto
  from eval_loop_inv [OF run [unfolded eval_run_def] initial_eval_inv] pf d s
  show ?thesis by auto
qed

lemma evaluate_schedule_ok:
  assumes wf: "wf_graph G" and ts: "topological_sort G = Inr tasks" and n: "0 < n"
    and total: "\<forall>t \<in> set tasks. \<exists>k. assignment t = Some k \<and> k < n"
  shows "\<exists>st mk. eval_run G tasks n assignment = Inr st \<and> py_max (device_end_times st) = Inr mk \<and>
           evaluate_schedule G tasks n assignment = Inr (mk, sum_list (device_energy st))"
proof -
  from topological_sort_sound [OF wf ts] have s: "set tasks = set (task_names G)" by auto
  let ?init = "\<lparr>device_end_times = replicate n 0, device_energy = replicate n 0,
        ev_task_finish_times = Map.empty, ev_trace = []\<rparr>"
  have "length (device_end_times ?init) = n" by simp
  with s total have "\<exists>st'. eval_loop G (default_node_powers n) assignment tasks ?init = Inr st'"
    by (intro eval_loop_ok) auto
  then obtain st where run: "eval_run G tasks n assignment = Inr st"
    by (auto simp: eval_run_def)
  from eval_run_inv [OF wf ts run] have "length (device_end_times st) = n"
    by (simp add: eval_inv_def)
  with n obtain mk where mk: "py_max (device_end_times st) = Inr mk"
    by (cases "device_end_times st") (auto simp: py_max_def)
  with run show ?thesis by (simp add: evaluate_schedule_def)
qed

section \<open>Negative durations\<close>

lemma eval_duration_normalize [simp]: "eval_duration (normalize_attrs a) = eval_duration a"
  by (cases "exec_time a") (auto simp: eval_duration_def normalize_attrs_def)

lemma node_data_normalize:
  "map_of (g_nodes G) t = Some a \<Longrightarrow> node_data (normalize_execution_times G) t = Inr (normalize_attrs a)"
  by (simp add: node_data_def lookup_def normalize_execution_times_def map_of_map)

lemma single_task_wf: "wf_graph (single_task e)"
  by (simp add: wf_graph_def single_task_def task_names_def)

lemma single_task_sort: "topological_sort (single_task e) = Inr [''A'']"
  by (simp add: topological_sort_def single_task_def task_names_def in_degree_def
      predecessors_def successors_def)

text \<open>
  C3 (as stated).  A single task with \<open>exec_time = -5\<close>: the evaluator and FCFS both
  return a schedule, of makespan 0.1, instead of failing.
\<close>

theorem negative_duration_accepted_counterexample:
  "topological_sort (single_task (-5)) = Inr [''A''] \<and>
   evaluate_schedule (single_task (-5)) [''A''] 2 [''A'' \<mapsto> 0] = Inr (1/10, 1/10) \<and>
   fcfs_makespan_of (single_task (-5)) 2 = Some (1/10)"
  by code_simp

text \<open>
  C3 (amended).  No duration makes the schedule evaluation fail: on a valid DAG, with
  at least one node and an assignment of every task to a node in range, the evaluator
  and FCFS both return a schedule, in which every task \<open>t\<close> runs for
  \<open>max(0.1, exec_time)\<close> (10 without \<open>exec_time\<close>); a negative \<open>exec_time\<close>, like any
  value below 0.1, is replaced by the floor 0.1.
\<close>

theorem durations_clamped_not_rejected:
  assumes wf: "wf_graph G" and ts: "topological_sort G = Inr tasks" and n: "0 < n"
    and total: "\<forall>t \<in> set tasks. \<exists>k. assignment t = Some k \<and> k < n"
    and t: "map_of (g_nodes G) t = Some a"
  shows "\<exists>st mk res G' info info'.
           eval_run G tasks n assignment = Inr st \<and>
           evaluate_schedule G tasks n assignment = Inr (mk, sum_list (device_energy st)) \<and>
           map_of (ev_trace st) t = Some info \<and>
           end_time info = start_time info + eval_duration a \<and>
           schedule_fcfs G n = Inr (res, G') \<and>
           map_of (res_schedule res) t = Some info' \<and>
           end_time info' = start_time info' + eval_duration a \<and>
           (\<forall>e. exec_time a = Some e \<and> e < 0.1 \<longrightarrow> eval_duration a = 0.1)"
proof -
  from t have tn: "t \<in> set (task_names G)"
    by (auto simp: task_names_def dest: map_of_SomeD intro: rev_image_eqI)
  from t have nd: "node_data G t = Inr a" by (simp add: node_data_def lookup_def)
  from evaluate_schedule_ok [OF wf ts n total] obtain st mk where
    run: "eval_run G tasks n assignment = Inr st"
    and ev: "evaluate_schedule G tasks n assignment = Inr (mk, sum_list (device_energy st))"
    by blast
  from eval_run_inv [OF wf ts run] have inv: "eval_inv G n assignment st"
    and dom: "dom (map_of (ev_trace st)) = set (task_names G)" by auto
  from dom tn obtain info where info: "map_of (ev_trace st) t = Some info" by auto
  with inv nd have dur: "end_time info = start_time info + eval_duration a"
    unfolding eval_inv_def by fastforce
  from topological_sort_acyclic [OF wf ts] have ac: "acyclic (edge_rel G)" .
  from schedule_fcfs_ok [OF wf ac n] obtain res G' where f: "schedule_fcfs G n = Inr (res, G')"
    by (metis surj_pair)
  from schedule_fcfs_inv [OF wf f] obtain fst' where
    finv: "fcfs_inv (normalize_execution_times G) n fst'" and rs: "res_schedule res = schedule fst'"
    and fdom: "dom (map_of (schedule fst')) = set (task_names G)" by blast
  from fdom tn rs obtain info' where info': "map_of (res_schedule res) t = Some info'" by auto
  with finv rs node_data_normalize [OF t]
  have dur': "end_time info' = start_time info' + eval_duration a"
    unfolding fcfs_inv_def by fastforce
  have clamp: "\<forall>e. exec_time a = Some e \<and> e < 0.1 \<longrightarrow> eval_duration a = 0.1"
    by (auto simp: eval_duration_def)
  from run ev info dur f info' dur' clamp show ?thesis by blast
qed

theorem durations_clamped_not_rejected_witness:
  "wf_graph (single_task (-5)) \<and> topological_sort (single_task (-5)) = Inr [''A''] \<and> (0::nat) < 2 \<and>
   [''A'' \<mapsto> 0::nat] ''A'' = Some 0 \<and>
   map_of (g_nodes (single_task (-5))) ''A'' = Some (task_of (-5)) \<and>
   exec_time (task_of (-5)) = Some (-5) \<and> eval_duration (task_of (-5)) = 0.1 \<and>
   (\<exists>st mk res G' info info'.
           eval_run (single_task (-5)) [''A''] 2 [''A'' \<mapsto> 0] = Inr st \<and>
           evaluate_schedule (single_task (-5)) [''A''] 2 [''A'' \<mapsto> 0]
             = Inr (mk, sum_list (device_energy st)) \<and>
           map_of (ev_trace st) ''A'' = Some info \<and>
           end_time info = start_time info + eval_duration (task_of (-5)) \<and>
           schedule_fcfs (single_task (-5)) 2 = Inr (res, G') \<and>
           map_of (res_schedule res) ''A'' = Some info' \<and>
           end_time info' = start_time info' + eval_duration (task_of (-5)) \<and>
           (\<forall>e. exec_time (task_of (-5)) = Some e \<and> e < 0.1 \<longrightarrow> eval_duration (task_of (-5)) = 0.1))"
proof -
  have total: "\<forall>t \<in> set [''A'']. \<exists>k. [''A'' \<mapsto> 0::nat] t = Some k \<and> k < 2" by simp
  have t: "map_of (g_nodes (single_task (-5))) ''A'' = Some (task_of (-5))"
    by (simp add: single_task_def)
  have n: "(0::nat) < 2" by simp
  note inst = durations_clamped_not_rejected [OF single_task_wf single_task_sort n total t]
  have d: "eval_duration (task_of (-5)) = 0.1" by (simp add: eval_duration_def task_of_def)
  have e: "exec_time (task_of (-5)) = Some (-5)" by (simp add: task_of_def)
  have a0: "[''A'' \<mapsto> 0::nat] ''A'' = Some 0" by simp
  show ?thesis
    by (intro conjI single_task_wf single_task_sort n a0 t e d inst)
qed

section \<open>Invariants of the HEFT loop\<close>

lemma py_max_ge: "py_max xs = Inr m \<Longrightarrow> x \<in> set xs \<Longrightarrow> x \<le> m"
proof -
  assume a: "py_max xs = Inr m" and x: "x \<in> set xs"
  from a obtain y r where xs: "xs = y # r" and m: "m = fold max r y"
    by (auto simp: py_max_def split: list.splits)
  from x xs consider "x = y" | "x \<in> set r" by auto
  then show ?thesis
  proof cases
    case 1
    with m show ?thesis by (simp add: fold_max_ge_init)
  next
    case 2
    with m show ?thesis by (simp add: fold_max_ge_elem)
  qed
qed

lemma pred_arrivals_mem:
  "pred_arrivals avg G t ps sched = Inr vs \<Longrightarrow> p \<in> set ps \<Longrightarrow>
   \<exists>pinfo c. map_of sched p = Some pinfo \<and> get_comm_cost avg G p t = Inr c \<and>
             end_time pinfo + c \<in> set vs"
proof (induction ps arbitrary: vs)
  case Nil
  then show ?case by simp
next
  case (Cons q ps)
  from Cons.prems(1) obtain qinfo c ws where q: "map_of sched q = Some qinfo"
    and c: "get_comm_cost avg G q t = Inr c"
    and ws: "pred_arrivals avg G t ps sched = Inr ws" and vs: "vs = (end_time qinfo + c) # ws"
    by (auto simp: bnd_eq_Inr split: option.splits)
  show ?case
  proof (cases "p = q")
    case True
    with q c vs show ?thesis by auto
  next
    case False
    with Cons.prems(2) have "p \<in> set ps" by simp
    from Cons.IH [OF ws this] vs show ?thesis by auto
  qed
qed

lemma heft_ready_time_ge:
  assumes "heft_ready_time avg G t sched = Inr ready" and "p \<in> set (predecessors G t)"
  shows "\<exists>pinfo c. map_of sched p = Some pinfo \<and> get_comm_cost avg G p t = Inr c \<and>
                   end_time pinfo + c \<le> ready"
proof -
  from assms(2) have ne: "predecessors G t \<noteq> []" by auto
  with assms(1) obtain vs where vs: "pred_arrivals avg G t (predecessors G t) sched = Inr vs"
    and mx: "py_max vs = Inr ready"
    by (auto simp: heft_ready_time_def bnd_eq_Inr)
  from pred_arrivals_mem [OF vs assms(2)] obtain pinfo c where
    pc: "map_of sched p = Some pinfo" "get_comm_cost avg G p t = Inr c" "end_time pinfo + c \<in> set vs"
    by blast
  from py_max_ge [OF mx pc(3)] pc show ?thesis by blast
qed

lemma eft_fold_node:
  "fold (\<lambda>node_id (best_node, best_finish_time).
            if P node_id best_finish_time then (Some node_id, Some (e node_id))
            else (best_node, best_finish_time)) xs (bn, bf) = (bn', bf') \<Longrightarrow>
   bn' = bn \<or> (\<exists>x \<in> set xs. bn' = Some x)"
proof (induction xs arbitrary: bn bf)
  case Nil
  then show ?case by simp
next
  case (Cons x xs)
  show ?case
  proof (cases "P x bf")
    case True
    with Cons.prems Cons.IH [of "Some x" "Some (e x)"] show ?thesis by auto
  next
    case False
    with Cons.prems Cons.IH [of bn bf] show ?thesis by auto
  qed
qed

lemma best_eft_node_lt: "best_eft_node ready ct avail n = Some b \<Longrightarrow> b < n"
proof -
  assume a: "best_eft_node ready ct avail n = Some b"
  let ?P = "\<lambda>node_id (bf :: real option).
              case bf of None \<Rightarrow> True | Some x \<Rightarrow> max ready (avail ! node_id) + ct < x"
  let ?e = "\<lambda>node_id. max ready (avail ! node_id) + ct"
  let ?F = "\<lambda>node_id (best_node, best_finish_time).
              if ?P node_id best_finish_time then (Some node_id, Some (?e node_id))
              else (best_node, best_finish_time)"
  have eq: "best_eft_node ready ct avail n = fst (fold ?F [0..<n] (None, None))"
    by (simp add: best_eft_node_def Let_def)
  obtain bn' bf' where f: "fold ?F [0..<n] (None, None) = (bn', bf')"
    by (cases "fold ?F [0..<n] (None, None)")
  from a eq f have "bn' = Some b" by simp
  with eft_fold_node [where P = ?P and e = ?e, OF f] show ?thesis by auto
qed

lemma heft_step_inv:
  assumes inv: "heft_inv avg G n st" and step: "heft_step avg G n t st = Inr st'"
    and new: "map_of (schedule_result st) t = None"
  shows "heft_inv avg G n st' \<and>
         dom (map_of (schedule_result st')) = insert t (dom (map_of (schedule_result st)))"
proof -
  from step obtain a ct ready best where a: "node_data G t = Inr a"
    and ct: "get_task_cost avg a = Inr ct"
    and ready: "heft_ready_time avg G t (schedule_result st) = Inr ready"
    and best: "best_eft_node ready ct (h_node_available_time st) n = Some best"
    and st': "st' = \<lparr>h_node_available_time = (h_node_available_time st)[best :=
                       max ready (h_node_available_time st ! best) + ct],
                    schedule_result = AList.update t
                       \<lparr>assigned_node = best,
                        start_time = max ready (h_node_available_time st ! best),
                        end_time = max ready (h_node_available_time st ! best) + ct,
                        info_exec_time = ct\<rparr> (schedule_result st)\<rparr>"
    by (auto simp: heft_step_def bnd_eq_Inr Let_def split: option.splits)
  let ?start = "max ready (h_node_available_time st ! best)"
  let ?info = "\<lparr>assigned_node = best, start_time = ?start, end_time = ?start + ct,
                info_exec_time = ct\<rparr>"
  let ?m = "map_of (schedule_result st)"
  have m': "map_of (schedule_result st') = ?m(t \<mapsto> ?info)"
    by (simp add: st' update_conv')
  have len: "length (h_node_available_time st') = n" using inv by (simp add: st' heft_inv_def)
  have dist: "distinct (map fst (schedule_result st'))"
    using inv by (simp add: st' heft_inv_def distinct_update)
  have each: "\<forall>u info. map_of (schedule_result st') u = Some info \<longrightarrow>
        assigned_node info < n \<and>
        (\<forall>p \<in> set (predecessors G u). \<exists>pinfo c.
            map_of (schedule_result st') p = Some pinfo \<and> get_comm_cost avg G p u = Inr c \<and>
            end_time pinfo + c \<le> start_time info)"
  proof (intro allI impI conjI ballI)
    fix u info assume u: "map_of (schedule_result st') u = Some info"
    show "assigned_node info < n"
    proof (cases "u = t")
      case True
      with u m' best_eft_node_lt [OF best] show ?thesis by auto
    next
      case False
      with u m' inv show ?thesis unfolding heft_inv_def by auto
    qed
    fix p assume p: "p \<in> set (predecessors G u)"
    have "\<exists>pinfo c. ?m p = Some pinfo \<and> get_comm_cost avg G p u = Inr c \<and>
            end_time pinfo + c \<le> start_time info"
    proof (cases "u = t")
      case True
      with u m' have i: "info = ?info" by simp
      from heft_ready_time_ge [OF ready] p True obtain pinfo c where
        "?m p = Some pinfo" "get_comm_cost avg G p u = Inr c" "end_time pinfo + c \<le> ready"
        by blast
      moreover have "ready \<le> start_time info" by (simp add: i)
      ultimately show ?thesis by fastforce
    next
      case False
      with u m' have "?m u = Some info" by simp
      with inv p show ?thesis unfolding heft_inv_def by blast
    qed
    then obtain pinfo c where pc: "?m p = Some pinfo" "get_comm_cost avg G p u = Inr c"
      "end_time pinfo + c \<le> start_time info" by blast
    with new have "p \<noteq> t" by auto
    with pc m' show "\<exists>pinfo c. map_of (schedule_result st') p = Some pinfo \<and>
            get_comm_cost avg G p u = Inr c \<and> end_time pinfo + c \<le> start_time info"
      by simp
  qed
  from len dist each have "heft_inv avg G n st'" unfolding heft_inv_def by blast
  moreover have "dom (map_of (schedule_result st')) = insert t (dom ?m)" unfolding m' by simp
  ultimately show ?thesis by blast
qed

lemma heft_loop_inv:
  "heft_loop avg G n ts st = Inr st' \<Longrightarrow> heft_inv avg G n st \<Longrightarrow> distinct ts \<Longrightarrow>
   set ts \<inter> dom (map_of (schedule_result st)) = {} \<Longrightarrow>
   heft_inv avg G n st' \<and>
   dom (map_of (schedule_result st')) = dom (map_of (schedule_result st)) \<union> set ts"
proof (induction ts arbitrary: st)
  case Nil
  then show ?case by simp
next
  case (Cons t ts)
  from Cons.prems(1) obtain st1 where s1: "heft_step avg G n t st = Inr st1"
    and rest: "heft_loop avg G n ts st1 = Inr st'"
    by (auto simp: bnd_eq_Inr)
  from Cons.prems(4) have new: "map_of (schedule_result st) t = None" by auto
  from heft_step_inv [OF Cons.prems(2) s1 new]
  have inv1: "heft_inv avg G n st1"
    and dom1: "dom (map_of (schedule_result st1)) = insert t (dom (map_of (schedule_result st)))"
    by auto
  from Cons.prems(3,4) have d: "distinct ts"
    and disj: "set ts \<inter> dom (map_of (schedule_result st1)) = {}"
    unfolding dom1 by auto
  from Cons.IH [OF rest inv1 d disj] dom1 show ?case by auto
qed

lemma heft_schedule_inv:
  assumes wf: "wf_graph G" and run: "heft_schedule rl n avg G = Inr sched"
  shows "\<exists>st. heft_inv avg G n st \<and> sched = schedule_result st \<and>
              dom (map_of sched) = set (task_names G)"
proof -
  let ?init = "\<lparr>h_node_available_time = replicate n 0, schedule_result = []\<rparr>"
  from run obtain tasks rank sorted st where ts: "topological_sort G = Inr tasks"
    and srt: "sorted_by_rank rank tasks = Inr sorted"
    and loop: "heft_loop avg G n sorted ?init = Inr st"
    and sched: "sched = schedule_result st"
    by (auto simp: heft_schedule_def bnd_eq_Inr)
  from topological_sort_sound [OF wf ts]
  have d: "distinct tasks" and s: "set tasks = set (task_names G)" by auto
  from srt have sorted: "sorted = sort_key (\<lambda>x. - the (rank x)) tasks"
    by (auto simp: sorted_by_rank_def split: if_splits)
  with d s have d': "distinct sorted" and s': "set sorted = set (task_names G)" by auto
  have init: "heft_inv avg G n ?init" by (simp add: heft_inv_def)
  from heft_loop_inv [OF loop init d'] s' sched show ?thesis by auto
qed

lemma get_comm_cost_nonneg:
  assumes "comm_nonneg G" "0 < avg" "get_comm_cost avg G u v = Inr c"
  shows "0 \<le> c"
proof (cases "map_of (map (\<lambda>(a, b, c). ((a, b), c)) (g_edges G)) (u, v)")
  case None
  with assms(3) show ?thesis by (simp add: get_comm_cost_def)
next
  case (Some oc)
  show ?thesis
  proof (cases oc)
    case None
    with Some assms(3) show ?thesis by (simp add: get_comm_cost_def)
  next
    case (Some x)
    with \<open>map_of (map (\<lambda>(a, b, c). ((a, b), c)) (g_edges G)) (u, v) = Some oc\<close>
    have "((u, v), Some x) \<in> set (map (\<lambda>(a, b, c). ((a, b), c)) (g_edges G))"
      by (auto dest: map_of_SomeD)
    then have "(u, v, Some x) \<in> set (g_edges G)" by auto
    with assms(1) have "0 \<le> x" unfolding comm_nonneg_def by blast
    moreover from Some \<open>map_of (map (\<lambda>(a, b, c). ((a, b), c)) (g_edges G)) (u, v) = Some oc\<close>
      assms(2,3) have "c = x / avg" by (simp add: get_comm_cost_def)
    ultimately show ?thesis using assms(2) by simp
  qed
qed

lemma heft_precedence:
  assumes wf: "wf_graph G" and run: "heft_schedule rl n avg G = Inr sched"
    and nn: "comm_nonneg G" and avg: "0 < avg"
  shows "precedence_ok G (map_of sched)"
proof -
  from heft_schedule_inv [OF wf run] obtain st where inv: "heft_inv avg G n st"
    and sched: "sched = schedule_result st" by blast
  show ?thesis
    unfolding precedence_ok_def
  proof (intro allI impI ballI)
    fix t info p
    assume "map_of sched t = Some info" and "p \<in> set (predecessors G t)"
    with inv sched obtain pinfo c where pc: "map_of sched p = Some pinfo"
      "get_comm_cost avg G p t = Inr c" "end_time pinfo + c \<le> start_time info"
      unfolding heft_inv_def by blast
    from get_comm_cost_nonneg [OF nn avg pc(2)] pc
    show "\<exists>pinfo. map_of sched p = Some pinfo \<and> end_time pinfo \<le> start_time info"
      by auto
  qed
qed

lemma heft_energy:
  assumes wf: "wf_graph G" and run: "heft_schedule rl n avg G = Inr sched"
  shows "calculate_energy avg (default_node_powers n) sched
           = Inr (recomputed_energy sched (default_node_powers n) * avg)"
proof -
  from heft_schedule_inv [OF wf run] obtain st where inv: "heft_inv avg G n st"
    and sched: "sched = schedule_result st" by blast
  have "\<forall>(t, info) \<in> set sched. assigned_node info < length (default_node_powers n)"
  proof (clarify)
    fix t info assume "(t, info) \<in> set sched"
    with inv sched have "map_of (schedule_result st) t = Some info" by (simp add: heft_inv_def)
    with inv show "assigned_node info < length (default_node_powers n)"
      unfolding heft_inv_def default_node_powers_def by auto
  qed
  from energy_loop_ok [OF this, of 0] obtain e where
    e: "energy_loop sched (default_node_powers n) 0 = Inr e" by blast
  from energy_loop_sum [OF e] e show ?thesis by (simp add: calculate_energy_def)
qed

section \<open>The precedence invariant\<close>

lemma precedence_ok_normalize [simp]:
  "precedence_ok (normalize_execution_times G) m = precedence_ok G m"
  by (simp add: precedence_ok_def)

lemma diamond_wf: "wf_graph diamond"
  by (simp add: wf_graph_def diamond_def task_names_def)

lemma diamond_sort: "topological_sort diamond = Inr [''A'', ''B'', ''C'', ''D'']"
  by code_simp

lemma diamond_comm_nonneg: "comm_nonneg diamond"
  by (simp add: comm_nonneg_def diamond_def)

text \<open>
  C6 (amended).  In every schedule produced by FCFS, by QIPSO's evaluator on an
  assignment (the recorded start and end times of its simulation, for the topological
  order of the graph) and by HEFT, every task of the graph is scheduled and starts no
  earlier than each of its predecessors ends; for HEFT, whose ready time adds the
  communication cost of the edge, provided that no communication cost is negative and
  \<open>avg_comp_cost\<close> is positive.
\<close>

theorem precedence_invariant:
  assumes wf: "wf_graph G"
  shows "(schedule_fcfs G n = Inr (res, G') \<longrightarrow>
            precedence_ok G (map_of (res_schedule res)) \<and>
            dom (map_of (res_schedule res)) = set (task_names G)) \<and>
         (topological_sort G = Inr tasks \<and> eval_run G tasks n assignment = Inr st \<longrightarrow>
            precedence_ok G (map_of (ev_trace st)) \<and>
            dom (map_of (ev_trace st)) = set (task_names G)) \<and>
         (heft_schedule rl n avg G = Inr sched \<and> comm_nonneg G \<and> 0 < avg \<longrightarrow>
            precedence_ok G (map_of sched) \<and> dom (map_of sched) = set (task_names G))"
proof (intro conjI impI)
  assume run: "schedule_fcfs G n = Inr (res, G')"
  from schedule_fcfs_inv [OF wf run] obtain fs where
    "fcfs_inv (normalize_execution_times G) n fs" "res_schedule res = schedule fs"
    "dom (map_of (schedule fs)) = set (task_names G)" by blast
  then show "precedence_ok G (map_of (res_schedule res))"
    and "dom (map_of (res_schedule res)) = set (task_names G)"
    by (simp_all add: fcfs_inv_def)
next
  assume "topological_sort G = Inr tasks \<and> eval_run G tasks n assignment = Inr st"
  then have ts: "topological_sort G = Inr tasks" and run: "eval_run G tasks n assignment = Inr st"
    by auto
  from eval_run_inv [OF wf ts run]
  show "precedence_ok G (map_of (ev_trace st))"
    and "dom (map_of (ev_trace st)) = set (task_names G)"
    by (simp_all add: eval_inv_def)
next
  assume "heft_schedule rl n avg G = Inr sched \<and> comm_nonneg G \<and> 0 < avg"
  then have run: "heft_schedule rl n avg G = Inr sched" and nn: "comm_nonneg G" and avg: "0 < avg"
    by auto
  from heft_precedence [OF wf run nn avg] show "precedence_ok G (map_of sched)" .
  from heft_schedule_inv [OF wf run] show "dom (map_of sched) = set (task_names G)" by blast
qed

theorem precedence_invariant_witness:
  "wf_graph diamond \<and> topological_sort diamond = Inr [''A'', ''B'', ''C'', ''D''] \<and>
   comm_nonneg diamond \<and> (0::real) < 1000 \<and>
   (\<exists>res G'. schedule_fcfs diamond 2 = Inr (res, G') \<and>
       precedence_ok diamond (map_of (res_schedule res)) \<and>
       dom (map_of (res_schedule res)) = set (task_names diamond)) \<and>
   (\<exists>st. eval_run diamond [''A'', ''B'', ''C'', ''D''] 2
              [''A'' \<mapsto> 0, ''B'' \<mapsto> 1, ''C'' \<mapsto> 0, ''D'' \<mapsto> 1] = Inr st \<and>
       precedence_ok diamond (map_of (ev_trace st)) \<and>
       dom (map_of (ev_trace st)) = set (task_names diamond)) \<and>
   (\<exists>sched. heft_schedule 1000 2 1000 diamond = Inr sched \<and>
       precedence_ok diamond (map_of sched) \<and> dom (map_of sched) = set (task_names diamond))"
proof -
  let ?asg = "[''A'' \<mapsto> 0::nat, ''B'' \<mapsto> 1, ''C'' \<mapsto> 0, ''D'' \<mapsto> 1]"
  let ?tasks = "[''A'', ''B'', ''C'', ''D'']"
  have avg: "(0::real) < 1000" by simp
  from topological_sort_acyclic [OF diamond_wf diamond_sort]
  have ac: "acyclic (edge_rel diamond)" .
  have n: "(0::nat) < 2" by simp
  from schedule_fcfs_ok [OF diamond_wf ac n] obtain res G' where
    f: "schedule_fcfs diamond 2 = Inr (res, G')" by (metis surj_pair)
  have total: "\<forall>t \<in> set ?tasks. \<exists>k. ?asg t = Some k \<and> k < 2" by simp
  from evaluate_schedule_ok [OF diamond_wf diamond_sort n total] obtain st where
    e: "eval_run diamond ?tasks 2 ?asg = Inr st" by blast
  obtain sched where h: "heft_schedule 1000 2 1000 diamond = Inr sched"
  proof
    show "heft_schedule 1000 2 1000 diamond = Inr
      [(''A'', \<lparr>assigned_node = 0, start_time = 0, end_time = 1 / 1000, info_exec_time = 1 / 1000\<rparr>),
       (''B'', \<lparr>assigned_node = 0, start_time = 1 / 1000, end_time = 1 / 500, info_exec_time = 1 / 1000\<rparr>),
       (''C'', \<lparr>assigned_node = 1, start_time = 1 / 1000, end_time = 1 / 500, info_exec_time = 1 / 1000\<rparr>),
       (''D'', \<lparr>assigned_node = 0, start_time = 1 / 500, end_time = 3 / 1000, info_exec_time = 1 / 1000\<rparr>)]"
      by code_simp
  qed
  note inst = precedence_invariant [OF diamond_wf, where n = 2 and res = res and G' = G'
      and tasks = ?tasks and assignment = ?asg and st = st and rl = 1000 and avg = 1000
      and sched = sched]
  from inst f have c1: "\<exists>res G'. schedule_fcfs diamond 2 = Inr (res, G') \<and>
       precedence_ok diamond (map_of (res_schedule res)) \<and>
       dom (map_of (res_schedule res)) = set (task_names diamond)" by blast
  from inst diamond_sort e have c2: "\<exists>st. eval_run diamond ?tasks 2 ?asg = Inr st \<and>
       precedence_ok diamond (map_of (ev_trace st)) \<and>
       dom (map_of (ev_trace st)) = set (task_names diamond)" by blast
  from inst h diamond_comm_nonneg avg have c3: "\<exists>sched. heft_schedule 1000 2 1000 diamond = Inr sched \<and>
       precedence_ok diamond (map_of sched) \<and> dom (map_of sched) = set (task_names diamond)"
    by blast
  show ?thesis
    by (intro conjI diamond_wf diamond_sort diamond_comm_nonneg avg c1 c2 c3)
qed

section \<open>Energy of a schedule\<close>

text \<open>
  C7 (as stated).  HEFT on a single task with \<open>exec_time = 1\<close> and the default
  \<open>avg_comp_cost = 1000\<close>: the task occupies [0, 0.001] on node 0, the sum recomputed
  from the stored tuple is 0.001, and \<open>calculate_energy\<close> returns 1.
\<close>

theorem heft_energy_scaled_counterexample:
  "heft_schedule 1000 2 1000 (single_task 1) = Inr
     [(''A'', \<lparr>assigned_node = 0, start_time = 0, end_time = 1 / 1000, info_exec_time = 1 / 1000\<rparr>)] \<and>
   recomputed_energy
     [(''A'', \<lparr>assigned_node = 0, start_time = 0, end_time = 1 / 1000, info_exec_time = 1 / 1000\<rparr>)]
     (default_node_powers 2) = 1 / 1000 \<and>
   calculate_energy 1000 (default_node_powers 2)
     [(''A'', \<lparr>assigned_node = 0, start_time = 0, end_time = 1 / 1000, info_exec_time = 1 / 1000\<rparr>)]
     = Inr 1"
  by code_simp

text \<open>
  C7 (amended).  For a schedule returned by FCFS the energy recomputed from the stored
  tuples equals the returned energy.  For a schedule returned by HEFT, whose stored
  times are in units of \<open>avg_comp_cost\<close>, \<open>calculate_energy\<close> returns the recomputed
  sum multiplied by \<open>avg_comp_cost\<close>.
\<close>

theorem energy_round_trip:
  assumes wf: "wf_graph G"
  shows "(schedule_fcfs G n = Inr (res, G') \<longrightarrow>
            res_energy res = recomputed_energy (res_schedule res) (res_node_powers res)) \<and>
         (heft_schedule rl n avg G = Inr sched \<longrightarrow>
            calculate_energy avg (default_node_powers n) sched
              = Inr (recomputed_energy sched (default_node_powers n) * avg))"
proof (intro conjI impI)
  assume run: "schedule_fcfs G n = Inr (res, G')"
  from schedule_fcfs_inv [OF wf run] obtain fs :: fcfs_state where
    rs: "res_schedule res = schedule fs"
    and en: "calculate_energy_consumption (schedule fs) (default_node_powers n) = Inr (res_energy res)"
    and pw: "res_node_powers res = default_node_powers n" by blast
  from en have "energy_loop (schedule fs) (default_node_powers n) 0 = Inr (res_energy res)"
    by (simp add: calculate_energy_consumption_def)
  from energy_loop_sum [OF this] rs pw
  show "res_energy res = recomputed_energy (res_schedule res) (res_node_powers res)" by simp
next
  assume "heft_schedule rl n avg G = Inr sched"
  then show "calculate_energy avg (default_node_powers n) sched
              = Inr (recomputed_energy sched (default_node_powers n) * avg)"
    by (rule heft_energy [OF wf])
qed

theorem energy_round_trip_witness:
  "wf_graph diamond \<and>
   (\<exists>res G'. schedule_fcfs diamond 2 = Inr (res, G') \<and>
       res_energy res = recomputed_energy (res_schedule res) (res_node_powers res)) \<and>
   (\<exists>sched. heft_schedule 1000 2 1000 diamond = Inr sched \<and>
       calculate_energy 1000 (default_node_powers 2) sched
         = Inr (recomputed_energy sched (default_node_powers 2) * 1000))"
proof -
  from topological_sort_acyclic [OF diamond_wf diamond_sort]
  have ac: "acyclic (edge_rel diamond)" .
  have n: "(0::nat) < 2" by simp
  from schedule_fcfs_ok [OF diamond_wf ac n] obtain res G' where
    f: "schedule_fcfs diamond 2 = Inr (res, G')" by (metis surj_pair)
  obtain sched where h: "heft_schedule 1000 2 1000 diamond = Inr sched"
  proof
    show "heft_schedule 1000 2 1000 diamond = Inr
      [(''A'', \<lparr>assigned_node = 0, start_time = 0, end_time = 1 / 1000, info_exec_time = 1 / 1000\<rparr>),
       (''B'', \<lparr>assigned_node = 0, start_time = 1 / 1000, end_time = 1 / 500, info_exec_time = 1 / 1000\<rparr>),
       (''C'', \<lparr>assigned_node = 1, start_time = 1 / 1000, end_time = 1 / 500, info_exec_time = 1 / 1000\<rparr>),
       (''D'', \<lparr>assigned_node = 0, start_time = 1 / 500, end_time = 3 / 1000, info_exec_time = 1 / 1000\<rparr>)]"
      by code_simp
  qed
  note inst = energy_round_trip [OF diamond_wf, where n = 2 and res = res and G' = G'
      and rl = 1000 and avg = 1000 and sched = sched]
  from inst f have c1: "\<exists>res G'. schedule_fcfs diamond 2 = Inr (res, G') \<and>
       res_energy res = recomputed_energy (res_schedule res) (res_node_powers res)" by blast
  from inst h have c2: "\<exists>sched. heft_schedule 1000 2 1000 diamond = Inr sched \<and>
       calculate_energy 1000 (default_node_powers 2) sched
         = Inr (recomputed_energy sched (default_node_powers 2) * 1000)" by blast
  show ?thesis by (intro conjI diamond_wf c1 c2)
qed

text \<open>
  C6 (as stated).  HEFT on \<open>neg_comm_chain\<close> with two nodes: A runs on node 0 over
  [0,1]; the ready time of B is \<open>1 + (-0.5)\<close>, node 1 is idle, and B starts at 0.5,
  before its predecessor A ends.
\<close>

theorem heft_negative_comm_counterexample:
  "wf_graph neg_comm_chain \<and>
   heft_schedule 1000 2 1000 neg_comm_chain = Inr
     [(''A'', \<lparr>assigned_node = 0, start_time = 0, end_time = 1, info_exec_time = 1\<rparr>),
      (''B'', \<lparr>assigned_node = 1, start_time = 1 / 2, end_time = 3 / 2, info_exec_time = 1\<rparr>)] \<and>
   predecessors neg_comm_chain ''B'' = [''A''] \<and>
   \<not> precedence_ok neg_comm_chain (map_of
     [(''A'', \<lparr>assigned_node = 0, start_time = 0, end_time = 1, info_exec_time = 1\<rparr>),
      (''B'', \<lparr>assigned_node = 1, start_time = 1 / 2, end_time = 3 / 2, info_exec_time = 1\<rparr>)])"
proof (intro conjI)
  show "wf_graph neg_comm_chain"
    by (simp add: wf_graph_def neg_comm_chain_def task_names_def)
  show "heft_schedule 1000 2 1000 neg_comm_chain = Inr
     [(''A'', \<lparr>assigned_node = 0, start_time = 0, end_time = 1, info_exec_time = 1\<rparr>),
      (''B'', \<lparr>assigned_node = 1, start_time = 1 / 2, end_time = 3 / 2, info_exec_time = 1\<rparr>)]"
    by code_simp
  show p: "predecessors neg_comm_chain ''B'' = [''A'']"
    by (simp add: predecessors_def neg_comm_chain_def)
  let ?m = "map_of
     [(''A'', \<lparr>assigned_node = 0, start_time = 0, end_time = 1, info_exec_time = 1\<rparr>),
      (''B'', \<lparr>assigned_node = 1, start_time = 1 / 2, end_time = 3 / 2, info_exec_time = (1::real)\<rparr>)]"
  show "\<not> precedence_ok neg_comm_chain ?m"
  proof
    assume "precedence_ok neg_comm_chain ?m"
    moreover have "?m ''B'' = Some \<lparr>assigned_node = 1, start_time = 1 / 2, end_time = 3 / 2, info_exec_time = 1\<rparr>"
      by simp
    moreover have "''A'' \<in> set (predecessors neg_comm_chain ''B'')" by (simp add: p)
    ultimately have "\<exists>pinfo. ?m ''A'' = Some pinfo \<and>
        end_time pinfo \<le> start_time \<lparr>assigned_node = 1, start_time = 1 / 2, end_time = 3 / 2, info_exec_time = (1::real)\<rparr>"
      unfolding precedence_ok_def by blast
    then show False by simp
  qed
qed

section \<open>The critical path analysis returns\<close>

lemma es_get_props:
  assumes "es_get es k = (v, es')"
  shows "es' \<noteq> [] \<and> fst ` set es \<subseteq> fst ` set es' \<and> k \<in> fst ` set es'"
proof (cases "map_of es k")
  case None
  with assms show ?thesis by (auto simp: es_get_def)
next
  case (Some w)
  then have "(k, w) \<in> set es" by (rule map_of_SomeD)
  then have "k \<in> fst ` set es" "es \<noteq> []" by (auto intro: rev_image_eqI)
  with Some assms show ?thesis by (auto simp: es_get_def)
qed

lemma build_task_times_ok:
  "set ts \<subseteq> set (task_names G) \<Longrightarrow>
   \<exists>tt. build_task_times G ts m = Inr tt \<and> dom tt = dom m \<union> set ts"
proof (induction ts arbitrary: m)
  case Nil
  show ?case by simp
next
  case (Cons t ts)
  from Cons.prems have "t \<in> set (task_names G)" by simp
  from node_data_ok [OF this] obtain a where a: "node_data G t = Inr a" by blast
  from Cons.prems have "set ts \<subseteq> set (task_names G)" by simp
  from Cons.IH [OF this, of "m(t \<mapsto> cp_task_time a)"] obtain tt where
    r: "build_task_times G ts (m(t \<mapsto> cp_task_time a)) = Inr tt"
    and dm: "dom tt = dom (m(t \<mapsto> cp_task_time a)) \<union> set ts" by blast
  from a r have "build_task_times G (t # ts) m = Inr tt" by simp
  moreover from dm have "dom tt = dom m \<union> set (t # ts)" by auto
  ultimately show ?case by blast
qed

lemma union_chain: "A \<union> {s} \<subseteq> B \<Longrightarrow> B \<union> S \<subseteq> C \<Longrightarrow> A \<union> insert s S \<subseteq> C"
  by blast

lemma union_chain2: "A \<union> X \<subseteq> B \<Longrightarrow> B \<union> Y \<subseteq> C \<Longrightarrow> A \<union> (X \<union> Y) \<subseteq> C"
  by blast

lemma forward_succs_ok:
  "tt t = Some d \<Longrightarrow>
   \<exists>es'. forward_succs tt t ss es = Inr es' \<and> fst ` set es \<union> set ss \<subseteq> fst ` set es'"
proof (induction ss arbitrary: es)
  case Nil
  show ?case by simp
next
  case (Cons s ss)
  obtain a es1 where g1: "es_get es s = (a, es1)" by (cases "es_get es s")
  obtain b es2 where g2: "es_get es1 t = (b, es2)" by (cases "es_get es1 t")
  let ?es3 = "AList.update s (max a (b + d)) es2"
  from Cons.IH [OF Cons.prems, of ?es3] obtain es' where
    r: "forward_succs tt t ss ?es3 = Inr es'" and k: "fst ` set ?es3 \<union> set ss \<subseteq> fst ` set es'"
    by blast
  have "fst ` set es \<subseteq> fst ` set es2"
    using es_get_props [OF g1] es_get_props [OF g2] by blast
  then have "fst ` set es \<union> {s} \<subseteq> {s} \<union> fst ` set es2" by blast
  then have "fst ` set es \<union> {s} \<subseteq> fst ` set ?es3" by (simp only: dom_update)
  from union_chain [OF this k] have "fst ` set es \<union> set (s # ss) \<subseteq> fst ` set es'" by simp
  moreover have "forward_succs tt t (s # ss) es = Inr es'"
    using g1 g2 r Cons.prems by (simp add: lookup_def)
  ultimately show ?case by blast
qed

lemma forward_pass_ok:
  "set ts \<subseteq> dom tt \<Longrightarrow>
   \<exists>es'. forward_pass G tt ts es = Inr es' \<and>
         fst ` set es \<union> (\<Union>t \<in> set ts. set (successors G t)) \<subseteq> fst ` set es'"
proof (induction ts arbitrary: es)
  case Nil
  show ?case by simp
next
  case (Cons t ts)
  from Cons.prems obtain d where d: "tt t = Some d" by auto
  from forward_succs_ok [where tt = tt and t = t, OF d, of "successors G t" es] obtain es1 where
    s1: "forward_succs tt t (successors G t) es = Inr es1"
    and k1: "fst ` set es \<union> set (successors G t) \<subseteq> fst ` set es1" by blast
  from Cons.prems have "set ts \<subseteq> dom tt" by simp
  from Cons.IH [OF this, of es1] obtain es' where
    r: "forward_pass G tt ts es1 = Inr es'"
    and k: "fst ` set es1 \<union> (\<Union>t \<in> set ts. set (successors G t)) \<subseteq> fst ` set es'" by blast
  from union_chain2 [OF k1 k]
  have "fst ` set es \<union> (\<Union>t \<in> set (t # ts). set (successors G t)) \<subseteq> fst ` set es'"
    by simp
  with s1 r show ?case by auto
qed

lemma lf_get_ok: "es \<noteq> [] \<Longrightarrow> \<exists>v lf'. lf_get es lf k = Inr (v, lf')"
  by (cases es; cases "map_of lf k") (auto simp: lf_get_def py_max_def)

lemma backward_preds_ok:
  "(ps \<noteq> [] \<longrightarrow> es \<noteq> []) \<Longrightarrow> set ps \<subseteq> dom tt \<Longrightarrow>
   \<exists>lf'. backward_preds tt es t ps lf = Inr lf'"
proof (induction ps arbitrary: lf)
  case Nil
  show ?case by simp
next
  case (Cons p ps)
  from Cons.prems have es: "es \<noteq> []" by simp
  from lf_get_ok [OF es] obtain a lf1 where g1: "lf_get es lf p = Inr (a, lf1)" by blast
  from lf_get_ok [OF es] obtain b lf2 where g2: "lf_get es lf1 t = Inr (b, lf2)" by blast
  from Cons.prems obtain d where d: "tt p = Some d" by auto
  from Cons.prems es have "ps \<noteq> [] \<longrightarrow> es \<noteq> []" "set ps \<subseteq> dom tt" by auto
  from Cons.IH [OF this, of "AList.update p (min a (b - d)) lf2"] g1 g2 d
  show ?case by (simp add: lookup_def)
qed

lemma backward_pass_ok:
  "\<forall>t \<in> set ts. (predecessors G t \<noteq> [] \<longrightarrow> es \<noteq> []) \<and> set (predecessors G t) \<subseteq> dom tt \<Longrightarrow>
   \<exists>lf'. backward_pass G tt es ts lf = Inr lf'"
proof (induction ts arbitrary: lf)
  case Nil
  show ?case by simp
next
  case (Cons t ts)
  from Cons.prems have "predecessors G t \<noteq> [] \<longrightarrow> es \<noteq> []" "set (predecessors G t) \<subseteq> dom tt"
    by auto
  from backward_preds_ok [OF this, of t lf] obtain lf1 where
    s1: "backward_preds tt es t (predecessors G t) lf = Inr lf1" by blast
  from Cons.prems have
    "\<forall>t \<in> set ts. (predecessors G t \<noteq> [] \<longrightarrow> es \<noteq> []) \<and> set (predecessors G t) \<subseteq> dom tt"
    by simp
  from Cons.IH [OF this, of lf1] s1 show ?case by auto
qed

lemma critical_tasks_ok:
  "set ts \<subseteq> dom tt \<Longrightarrow>
   \<exists>cp es' lf'. critical_tasks tt ts es lf = Inr (cp, es', lf') \<and> set cp \<subseteq> set ts \<and>
                (ts \<noteq> [] \<or> es \<noteq> [] \<longrightarrow> es' \<noteq> [])"
proof (induction ts arbitrary: es lf)
  case Nil
  show ?case by simp
next
  case (Cons t ts)
  obtain a es1 where g1: "es_get es t = (a, es1)" by (cases "es_get es t")
  from es_get_props [OF g1] have ne: "es1 \<noteq> []" by simp
  from lf_get_ok [OF ne] obtain b lf1 where g2: "lf_get es1 lf t = Inr (b, lf1)" by blast
  from Cons.prems obtain d where d: "tt t = Some d" by auto
  from Cons.prems have "set ts \<subseteq> dom tt" by simp
  from Cons.IH [OF this, of es1 lf1] ne obtain cp es' lf' where
    r: "critical_tasks tt ts es1 lf1 = Inr (cp, es', lf')" and sub: "set cp \<subseteq> set ts"
    and ne': "es' \<noteq> []" by blast
  let ?cp = "if \<bar>a - (b - d)\<bar> < 1 / 1000000 then t # cp else cp"
  have "critical_tasks tt (t # ts) es lf = Inr (?cp, es', lf')"
    using g1 g2 d r by (simp add: lookup_def)
  moreover have "set ?cp \<subseteq> set (t # ts)" using sub by auto
  ultimately show ?case using ne' by blast
qed

lemma critical_scan_ok:
  assumes wf: "wf_graph G" and ts: "topological_sort G = Inr tasks"
  shows "\<exists>tt cp0 es. critical_scan G tasks = Inr (tt, cp0, es) \<and> dom tt = set tasks \<and>
                     set cp0 \<subseteq> set tasks \<and> (tasks \<noteq> [] \<longrightarrow> es \<noteq> [])"
proof -
  from topological_sort_sound [OF wf ts] have s: "set tasks = set (task_names G)" by auto
  from build_task_times_ok [of tasks G Map.empty] s obtain tt where
    tt: "build_task_times G tasks Map.empty = Inr tt" and dom: "dom tt = set tasks" by auto
  from forward_pass_ok [of tasks tt G "[]"] dom obtain es where
    fw: "forward_pass G tt tasks [] = Inr es"
    and keys: "(\<Union>t \<in> set tasks. set (successors G t)) \<subseteq> fst ` set es" by auto
  have bkw: "\<forall>t \<in> set (rev tasks).
      (predecessors G t \<noteq> [] \<longrightarrow> es \<noteq> []) \<and> set (predecessors G t) \<subseteq> dom tt"
  proof (intro ballI conjI impI)
    fix t assume "t \<in> set (rev tasks)"
    show "set (predecessors G t) \<subseteq> dom tt"
      using wf_predecessors_nodes [OF wf, of t] s dom by simp
    assume "predecessors G t \<noteq> []"
    then obtain p where p: "p \<in> set (predecessors G t)" by (cases "predecessors G t") auto
    with wf_predecessors_nodes [OF wf, of t] s have "p \<in> set tasks" by auto
    moreover from p have "t \<in> set (successors G p)" by (simp add: succ_pred_iff)
    ultimately have "t \<in> fst ` set es" using keys by blast
    then show "es \<noteq> []" by auto
  qed
  from backward_pass_ok [OF bkw, of "[]"] obtain lf where
    bw: "backward_pass G tt es (rev tasks) [] = Inr lf" by blast
  from critical_tasks_ok [of tasks tt es lf] dom obtain cp0 es' lf' where
    ct: "critical_tasks tt tasks es lf = Inr (cp0, es', lf')" and sub: "set cp0 \<subseteq> set tasks"
    and ne: "tasks \<noteq> [] \<longrightarrow> es' \<noteq> []" by auto
  from tt fw bw ct have "critical_scan G tasks = Inr (tt, cp0, es')"
    by (simp add: critical_scan_def)
  with dom sub ne show ?thesis by blast
qed

lemma find_critical_path_ok:
  assumes wf: "wf_graph G" and ts: "topological_sort G = Inr tasks" and ne: "tasks \<noteq> []"
  shows "\<exists>tt cp0 es cp cl. critical_scan G tasks = Inr (tt, cp0, es) \<and>
           find_critical_path G tasks = Inr (cp, cl) \<and> cp \<noteq> [] \<and> set cp \<subseteq> set tasks \<and>
           cp = (if cp0 = [] then [hd tasks] else cp0)"
proof -
  from critical_scan_ok [OF wf ts] ne obtain tt cp0 es where
    sc: "critical_scan G tasks = Inr (tt, cp0, es)" and dom: "dom tt = set tasks"
    and sub: "set cp0 \<subseteq> set tasks" and es: "es \<noteq> []" by blast
  let ?cp = "if cp0 = [] then [hd tasks] else cp0"
  from ne obtain t0 r where tasks: "tasks = t0 # r" by (cases tasks) auto
  have fb: "(if cp0 = [] then (case tasks of [] \<Rightarrow> Inl IndexError | t0 # r \<Rightarrow> Inr [t0]) else Inr cp0)
              = Inr ?cp"
    by (simp add: tasks)
  have cpne: "?cp \<noteq> []" by simp
  have cpsub: "set ?cp \<subseteq> set tasks" using sub by (simp add: tasks)
  from es obtain m where m: "py_max (map snd es) = Inr m"
    by (cases es) (auto simp: py_max_def)
  from cpne cpsub have "last ?cp \<in> set tasks" using last_in_set [OF cpne] by blast
  with dom obtain d where d: "tt (last ?cp) = Some d" by auto
  have "find_critical_path G tasks = Inr (?cp, m + d)"
    unfolding find_critical_path_def using sc fb m d
    by (simp add: lookup_def del: last.simps)
  with sc cpne cpsub show ?thesis by blast
qed

text \<open>
  C8 (as stated).  The graph without tasks is acyclic; its topological order is empty,
  no task passes the test, and the fallback \<open>task_list[0]\<close> raises \<open>IndexError\<close>.
\<close>

theorem find_critical_path_empty_counterexample:
  "wf_graph empty_graph \<and> acyclic (edge_rel empty_graph) \<and>
   topological_sort empty_graph = Inr [] \<and>
   find_critical_path empty_graph [] = Inl IndexError"
proof (intro conjI)
  show "wf_graph empty_graph" by (simp add: wf_graph_def empty_graph_def task_names_def)
  have "edge_rel empty_graph = {}" by (simp add: edge_rel_def empty_graph_def successors_def)
  then show "acyclic (edge_rel empty_graph)" by (simp add: acyclic_def)
  show "topological_sort empty_graph = Inr []" by code_simp
  show "find_critical_path empty_graph [] = Inl IndexError" by code_simp
qed

text \<open>
  C8 (amended).  For every acyclic task graph with at least one task, the topological
  sort succeeds and \<open>find_critical_path\<close> returns normally on its result; the returned
  list is not empty and consists of tasks of the graph: it is the list of tasks that
  pass the 1e-6 test, or the first task of the topological order when none does.
\<close>

theorem find_critical_path_returns:
  assumes wf: "wf_graph G" and ac: "acyclic (edge_rel G)" and ne: "g_nodes G \<noteq> []"
  shows "\<exists>tasks tt cp0 es cp cl.
           topological_sort G = Inr tasks \<and> critical_scan G tasks = Inr (tt, cp0, es) \<and>
           find_critical_path G tasks = Inr (cp, cl) \<and> cp \<noteq> [] \<and>
           set cp \<subseteq> set (task_names G) \<and> cp = (if cp0 = [] then [hd tasks] else cp0)"
proof -
  from topological_sort_complete [OF wf ac] obtain tasks where
    ts: "topological_sort G = Inr tasks" by blast
  from topological_sort_sound [OF wf ts] have s: "set tasks = set (task_names G)" by auto
  from ne have "set (task_names G) \<noteq> {}" by (simp add: task_names_def)
  with s have "tasks \<noteq> []" by auto
  from find_critical_path_ok [OF wf ts this] s ts show ?thesis by metis
qed

theorem find_critical_path_returns_witness:
  "wf_graph diamond \<and> acyclic (edge_rel diamond) \<and> g_nodes diamond \<noteq> [] \<and>
   (\<exists>tasks tt cp0 es cp cl.
           topological_sort diamond = Inr tasks \<and> critical_scan diamond tasks = Inr (tt, cp0, es) \<and>
           find_critical_path diamond tasks = Inr (cp, cl) \<and> cp \<noteq> [] \<and>
           set cp \<subseteq> set (task_names diamond) \<and> cp = (if cp0 = [] then [hd tasks] else cp0))"
proof -
  from topological_sort_acyclic [OF diamond_wf diamond_sort]
  have ac: "acyclic (edge_rel diamond)" .
  have ne: "g_nodes diamond \<noteq> []" by (simp add: diamond_def)
  show ?thesis
    by (intro conjI diamond_wf ac ne find_critical_path_returns [OF diamond_wf ac ne])
qed

section \<open>The stagnation test fires as soon as the history has 21 entries\<close>

lemma opt_le_refl [simp]: "opt_le x x"
  by (cases x) auto

lemma opt_le_trans: "opt_le x y \<Longrightarrow> opt_le y z \<Longrightarrow> opt_le x z"
  by (cases x; cases y; cases z) auto

lemma particle_step_inv:
  assumes step: "particle_step q draw p st = Inr st'" and inv: "best_inv st"
    and p: "p < length (personal_best_scores st)"
  shows "best_inv st' \<and> global_best_score st' \<noteq> None \<and>
         length (personal_best_scores st') = length (personal_best_scores st) \<and>
         convergence_history st' = convergence_history st"
proof -
  let ?sched = "\<lambda>t. if t \<in> set (task_list q) then Some (draw p t) else None"
  from step obtain mk en where
    ev: "evaluate_schedule (dag q) (task_list q) (num_nodes q) ?sched = Inr (mk, en)"
    by (auto simp: particle_step_def Let_def bnd_eq_Inr)
  have pb: "opt_le (global_best_score st) (personal_best_scores st ! p)"
    using inv p by (simp add: best_inv_def)
  have hist: "\<And>h. h \<in> set (convergence_history st) \<Longrightarrow> opt_le (global_best_score st) (fst h)"
    using inv by (simp add: best_inv_def)
  have pbs: "\<And>s. s \<in> set (personal_best_scores st) \<Longrightarrow> opt_le (global_best_score st) s"
    using inv by (simp add: best_inv_def)
  show ?thesis
  proof (cases "score_less mk (personal_best_scores st ! p)")
    case False
    with step ev have "st' = st" by (simp add: particle_step_def Let_def)
    moreover from False pb have "global_best_score st \<noteq> None"
      by (cases "personal_best_scores st ! p"; cases "global_best_score st")
         (auto simp: score_less_def)
    ultimately show ?thesis using inv by simp
  next
    case True
    let ?st1 = "st\<lparr>personal_best_scores := (personal_best_scores st)[p := Some mk],
                    personal_best_schedules := (personal_best_schedules st)[p := ?sched]\<rparr>"
    show ?thesis
    proof (cases "score_less mk (global_best_score st)")
      case less: True
      with True step ev have st': "st' = ?st1\<lparr>global_best_score := Some mk,
            global_best_energy := Some en, global_best_schedule := ?sched\<rparr>"
        by (simp add: particle_step_def Let_def)
      have low: "opt_le (Some mk) (global_best_score st)"
        using less by (cases "global_best_score st") (auto simp: score_less_def)
      have "\<forall>s \<in> set (personal_best_scores st'). opt_le (global_best_score st') s"
      proof
        fix s assume "s \<in> set (personal_best_scores st')"
        then have "s = Some mk \<or> s \<in> set (personal_best_scores st)"
          using set_update_subset_insert [of "personal_best_scores st" p "Some mk"]
          by (auto simp: st')
        then show "opt_le (global_best_score st') s"
          using opt_le_trans [OF low pbs] by (auto simp: st')
      qed
      moreover have "\<forall>h \<in> set (convergence_history st'). opt_le (global_best_score st') (fst h)"
        using opt_le_trans [OF low hist] by (simp add: st')
      ultimately show ?thesis by (simp add: best_inv_def st')
    next
      case notless: False
      with True step ev have st': "st' = ?st1" by (simp add: particle_step_def Let_def)
      from notless obtain g where g: "global_best_score st = Some g" "g \<le> mk"
        by (cases "global_best_score st") (auto simp: score_less_def)
      have "\<forall>s \<in> set (personal_best_scores st'). opt_le (global_best_score st') s"
      proof
        fix s assume "s \<in> set (personal_best_scores st')"
        then have "s = Some mk \<or> s \<in> set (personal_best_scores st)"
          using set_update_subset_insert [of "personal_best_scores st" p "Some mk"]
          by (auto simp: st')
        then show "opt_le (global_best_score st') s"
          using pbs g by (auto simp: st')
      qed
      moreover have "\<forall>h \<in> set (convergence_history st'). opt_le (global_best_score st') (fst h)"
        using hist by (simp add: st')
      ultimately show ?thesis using g by (simp add: best_inv_def st')
    qed
  qed
qed

lemma particles_pass_inv:
  "particles_pass q draw ps st = Inr st' \<Longrightarrow> best_inv st \<Longrightarrow>
   \<forall>p \<in> set ps. p < length (personal_best_scores st) \<Longrightarrow>
   best_inv st' \<and> (ps \<noteq> [] \<longrightarrow> global_best_score st' \<noteq> None) \<and>
   (global_best_score st \<noteq> None \<longrightarrow> global_best_score st' \<noteq> None) \<and>
   length (personal_best_scores st') = length (personal_best_scores st) \<and>
   convergence_history st' = convergence_history st"
proof (induction ps arbitrary: st)
  case Nil
  then show ?case by simp
next
  case (Cons p ps)
  from Cons.prems(1) obtain st1 where s1: "particle_step q draw p st = Inr st1"
    and rest: "particles_pass q draw ps st1 = Inr st'" by (auto simp: bnd_eq_Inr)
  from Cons.prems(3) have p: "p < length (personal_best_scores st)" by simp
  from particle_step_inv [OF s1 Cons.prems(2) p]
  have i1: "best_inv st1" "global_best_score st1 \<noteq> None"
    "length (personal_best_scores st1) = length (personal_best_scores st)"
    "convergence_history st1 = convergence_history st" by auto
  from Cons.prems(3) i1(3) have "\<forall>p \<in> set ps. p < length (personal_best_scores st1)" by simp
  from Cons.IH [OF rest i1(1) this] i1 show ?case by auto
qed

lemma fold_opt_min_least:
  "\<forall>x \<in> set xs. opt_le (Some g) x \<Longrightarrow> opt_le (Some g) a \<Longrightarrow>
   Some g \<in> set xs \<or> a = Some g \<Longrightarrow> fold opt_min xs a = Some g"
proof (induction xs arbitrary: a)
  case Nil
  then show ?case by simp
next
  case (Cons x xs)
  from Cons.prems(1) have x: "opt_le (Some g) x" and rest: "\<forall>y \<in> set xs. opt_le (Some g) y"
    by auto
  have le: "opt_le (Some g) (opt_min x a)"
    using x Cons.prems(2) by (cases x; cases a) auto
  have "Some g \<in> set xs \<or> opt_min x a = Some g"
  proof (cases "Some g \<in> set xs")
    case True
    then show ?thesis by simp
  next
    case False
    with Cons.prems(3) have "x = Some g \<or> a = Some g" by auto
    then have "opt_min x a = Some g"
      using x Cons.prems(2) by (cases x; cases a) auto
    then show ?thesis by simp
  qed
  from Cons.IH [OF rest le this] show ?case by simp
qed

lemma check_convergence_long_history:
  assumes g: "global_best_score st = Some g"
    and len: "20 < length (convergence_history st)"
    and lst: "fst (last (convergence_history st)) = Some g"
    and low: "\<forall>h \<in> set (convergence_history st). opt_le (Some g) (fst h)"
  shows "check_convergence crit st"
proof -
  let ?h = "convergence_history st"
  let ?w = "map fst (drop (length ?h - 20) ?h)"
  from len have ne: "drop (length ?h - 20) ?h \<noteq> []" by simp
  have "last (drop (length ?h - 20) ?h) = last ?h" using len by (simp add: last_drop)
  with lst ne have "Some g \<in> set ?w"
    by (metis (no_types, lifting) image_eqI last_in_set list.set_map)
  moreover have "\<forall>x \<in> set ?w. opt_le (Some g) x"
    using low by (auto dest: in_set_dropD)
  ultimately have "fold opt_min ?w None = Some g"
    by (intro fold_opt_min_least) auto
  with g len show ?thesis by (simp add: check_convergence_def)
qed

lemma iterations_break:
  "iterations q draws its st = Inr (st', r) \<Longrightarrow> best_inv st \<Longrightarrow>
   length (personal_best_scores st) = num_particles q \<Longrightarrow> 0 < num_particles q \<Longrightarrow>
   length (convergence_history st) \<le> 20 \<Longrightarrow>
   20 < length (convergence_history st) + length its \<Longrightarrow>
   r \<noteq> None \<and> length (convergence_history st') \<le> 21"
proof (induction its arbitrary: st)
  case Nil
  then show ?case by simp
next
  case (Cons it its)
  from Cons.prems(1) obtain st1 where
    pass: "particles_pass q (draws it) [0..<num_particles q] st = Inr st1"
    by (auto simp: bnd_eq_Inr)
  let ?st2 = "st1\<lparr>convergence_history :=
                convergence_history st1 @ [(global_best_score st1, global_best_energy st1)]\<rparr>"
  have rng: "\<forall>p \<in> set [0..<num_particles q]. p < length (personal_best_scores st)"
    using Cons.prems(3) by simp
  have nonempty: "[0..<num_particles q] \<noteq> []" using Cons.prems(4) by simp
  from particles_pass_inv [OF pass Cons.prems(2) rng] nonempty
  have i1: "best_inv st1" and some: "global_best_score st1 \<noteq> None"
    and l1: "length (personal_best_scores st1) = length (personal_best_scores st)"
    and h1: "convergence_history st1 = convergence_history st" by auto
  from some obtain g where g: "global_best_score st1 = Some g" by auto
  have inv2: "best_inv ?st2" using i1 by (simp add: best_inv_def)
  show ?case
  proof (cases "check_convergence (critical_length q) ?st2")
    case True
    with Cons.prems(1) pass have "st' = ?st2" "r = Some it" by (simp_all add: Let_def)
    with h1 Cons.prems(5) show ?thesis by simp
  next
    case False
    have short: "length (convergence_history ?st2) \<le> 20"
    proof (rule ccontr)
      assume "\<not> length (convergence_history ?st2) \<le> 20"
      then have len: "20 < length (convergence_history ?st2)" by simp
      have "check_convergence (critical_length q) ?st2"
      proof (rule check_convergence_long_history [OF _ len])
        show "global_best_score ?st2 = Some g" using g by simp
        show "fst (last (convergence_history ?st2)) = Some g" using g by simp
        show "\<forall>h \<in> set (convergence_history ?st2). opt_le (Some g) (fst h)"
          using inv2 g by (simp add: best_inv_def)
      qed
      with False show False by simp
    qed
    from False Cons.prems(1) pass have rec: "iterations q draws its ?st2 = Inr (st', r)"
      by (simp add: Let_def)
    have l2: "length (personal_best_scores ?st2) = num_particles q"
      using l1 Cons.prems(3) by simp
    have more: "20 < length (convergence_history ?st2) + length its"
      using Cons.prems(6) h1 by simp
    from Cons.IH [OF rec inv2 l2 Cons.prems(4) short more] show ?thesis .
  qed
qed

lemma run_optimization_stops_early:
  assumes init: "QIPSO_init G num_edge_nodes n_particles n_iter cw sw mutation = Inr (q, st)"
    and np: "0 < n_particles" and it: "20 < n_iter"
    and run: "run_optimization q draws st = Inr (st', r)"
  shows "r \<noteq> None \<and> length (convergence_history st') \<le> 21"
proof -
  from init have q: "num_particles q = nat n_particles" "max_iter q = n_iter"
    and st: "personal_best_scores st = replicate (nat n_particles) None"
      "convergence_history st = []" "global_best_score st = None"
    by (auto simp: QIPSO_init_def bnd_eq_Inr split: if_splits sum.splits error.splits)
  have inv: "best_inv st" using st by (simp add: best_inv_def)
  have "iterations q draws [0..<nat (max_iter q)] st = Inr (st', r)"
    using run by (simp add: run_optimization_def)
  from iterations_break [OF this inv] q st np it show ?thesis by simp
qed

section \<open>FCFS on the diamond graph with the other edge order\<close>

text \<open>
  Which of B and C goes to node 1 is decided by the topological order alone: the one
  visited first finds node 1 idle since 0.  With the edges out of A inserted in the
  other order, C is visited first and takes node 1.
\<close>

lemma fcfs_diamond_other_edge_order:
  "topological_sort diamond_cb = Inr [''A'', ''C'', ''B'', ''D''] \<and>
   map_option assigned_node (fcfs_info_of diamond_cb 2 ''C'') = Some 1 \<and>
   map_option assigned_node (fcfs_info_of diamond_cb 2 ''B'') = Some 0 \<and>
   fcfs_makespan_of diamond_cb 2 = Some 3"
  by code_simp

section \<open>Durations used by the critical-path analysis and by the evaluator\<close>

lemma build_task_times_vals:
  "build_task_times G ts m = Inr tt \<Longrightarrow>
   (\<forall>t \<in> set ts. \<exists>a. node_data G t = Inr a \<and> tt t = Some (cp_task_time a)) \<and>
   (\<forall>t. t \<notin> set ts \<longrightarrow> tt t = m t)"
proof (induction ts arbitrary: m)
  case Nil
  then show ?case by simp
next
  case (Cons u ts)
  from Cons.prems obtain a where a: "node_data G u = Inr a"
    and r: "build_task_times G ts (m(u \<mapsto> cp_task_time a)) = Inr tt"
    by (auto simp: bnd_eq_Inr)
  from Cons.IH [OF r] have
    ih1: "\<forall>t \<in> set ts. \<exists>a. node_data G t = Inr a \<and> tt t = Some (cp_task_time a)"
    and ih2: "\<forall>t. t \<notin> set ts \<longrightarrow> tt t = (m(u \<mapsto> cp_task_time a)) t" by auto
  have u: "\<exists>a. node_data G u = Inr a \<and> tt u = Some (cp_task_time a)"
  proof (cases "u \<in> set ts")
    case True
    with ih1 show ?thesis by blast
  next
    case False
    with ih2 have "tt u = Some (cp_task_time a)" by simp
    with a show ?thesis by blast
  qed
  from u ih1 have "\<forall>t \<in> set (u # ts). \<exists>a. node_data G t = Inr a \<and> tt t = Some (cp_task_time a)"
    by simp
  moreover from ih2 have "\<forall>t. t \<notin> set (u # ts) \<longrightarrow> tt t = m t" by simp
  ultimately show ?case by blast
qed

lemma critical_scan_times:
  assumes "critical_scan G tasks = Inr (tt, cp0, es)" and "t \<in> set tasks"
    and "node_data G t = Inr a"
  shows "tt t = Some (cp_task_time a)"
proof -
  from assms(1) have "build_task_times G tasks Map.empty = Inr tt"
    by (auto simp: critical_scan_def bnd_eq_Inr)
  from build_task_times_vals [OF this] assms(2,3) show ?thesis by fastforce
qed

lemma find_critical_path_length:
  assumes "critical_scan G tasks = Inr (tt, cp0, es)"
    and "find_critical_path G tasks = Inr (cp, cl)"
  shows "\<exists>m d. py_max (map snd es) = Inr m \<and> tt (last cp) = Some d \<and> cl = m + d"
  using assms
  by (auto simp: find_critical_path_def bnd_eq_Inr lookup_def split: option.splits)

lemma eval_duration_pos: "0.1 \<le> eval_duration a"
  by (simp add: eval_duration_def)

lemma py_max_mem: "py_max xs = Inr m \<Longrightarrow> m \<in> set xs"
proof -
  have f: "fold max r (x::real) \<in> set (x # r)" for r x
  proof (induction r arbitrary: x)
    case Nil
    show ?case by simp
  next
    case (Cons y r)
    from Cons.IH [of "max x y"] show ?case by (auto simp: max_def split: if_splits)
  qed
  assume "py_max xs = Inr m"
  then obtain x r where "xs = x # r" "m = fold max r x"
    by (auto simp: py_max_def split: list.splits)
  with f [of r x] show ?thesis by simp
qed

lemma eval_step_ends:
  assumes inv: "eval_ends_inv st"
    and step: "eval_step G powers assignment t st = Inr st'"
    and new: "map_of (ev_trace st) t = None"
  shows "eval_ends_inv st'"
proof -
  let ?ready = "ready_time_of (ev_task_finish_times st) (predecessors G t)"
  from step obtain a node where lt: "node < length (device_end_times st)"
    and det: "device_end_times st' = (device_end_times st)[node :=
                 max ?ready (device_end_times st ! node) + eval_duration a]"
    and tr: "ev_trace st' = AList.update t
                 \<lparr>assigned_node = node,
                  start_time = max ?ready (device_end_times st ! node),
                  end_time = max ?ready (device_end_times st ! node) + eval_duration a,
                  info_exec_time = eval_duration a, ready_time = ?ready\<rparr>
                 (ev_trace st)"
    by (auto simp: eval_step_def bnd_eq_Inr Let_def lookup_def split: option.splits if_splits)
  let ?start = "max ?ready (device_end_times st ! node)"
  let ?fin = "?start + eval_duration a"
  let ?info = "\<lparr>assigned_node = node, start_time = ?start, end_time = ?fin,
                info_exec_time = eval_duration a, ready_time = ?ready\<rparr>"
  let ?m = "map_of (ev_trace st)"
  have m': "map_of (ev_trace st') = ?m(t \<mapsto> ?info)" by (simp add: tr update_conv')
  have len: "length (device_end_times st') = length (device_end_times st)" by (simp add: det)
  have dpos: "0 \<le> eval_duration a" using eval_duration_pos [of a] by simp
  have ge: "device_end_times st ! node \<le> ?fin" using dpos by simp
  have p1: "\<forall>x \<in> set (device_end_times st').
              x = 0 \<or> (\<exists>u info. map_of (ev_trace st') u = Some info \<and> end_time info = x)"
  proof
    fix x assume "x \<in> set (device_end_times st')"
    then have "x \<in> insert ?fin (set (device_end_times st))"
      unfolding det using set_update_subset_insert by fast
    then consider "x = ?fin" | "x \<in> set (device_end_times st)" by blast
    then show "x = 0 \<or> (\<exists>u info. map_of (ev_trace st') u = Some info \<and> end_time info = x)"
    proof cases
      case 1
      have "map_of (ev_trace st') t = Some ?info \<and> end_time ?info = x" using 1 m' by simp
      then show ?thesis by blast
    next
      case 2
      with inv consider "x = 0" | u info where "?m u = Some info" "end_time info = x"
        unfolding eval_ends_inv_def by blast
      then show ?thesis
      proof cases
        case 1
        then show ?thesis by simp
      next
        case 2
        with new have "u \<noteq> t" by auto
        with 2 m' have "map_of (ev_trace st') u = Some info \<and> end_time info = x" by simp
        then show ?thesis by blast
      qed
    qed
  qed
  have p2: "\<forall>u info. map_of (ev_trace st') u = Some info \<longrightarrow>
         0 \<le> start_time info \<and> assigned_node info < length (device_end_times st') \<and>
         end_time info \<le> device_end_times st' ! assigned_node info"
  proof (intro allI impI)
    fix u info assume u: "map_of (ev_trace st') u = Some info"
    show "0 \<le> start_time info \<and> assigned_node info < length (device_end_times st') \<and>
         end_time info \<le> device_end_times st' ! assigned_node info"
    proof (cases "u = t")
      case True
      with u m' have i: "info = ?info" by simp
      have "0 \<le> ?ready" by (rule ready_time_nonneg)
      then have "0 \<le> ?start" by simp
      with i lt show ?thesis by (simp add: det)
    next
      case False
      with u m' have "?m u = Some info" by simp
      with inv have old: "0 \<le> start_time info" "assigned_node info < length (device_end_times st)"
        "end_time info \<le> device_end_times st ! assigned_node info"
        unfolding eval_ends_inv_def by blast+
      show ?thesis
      proof (cases "assigned_node info = node")
        case True
        with old ge lt show ?thesis by (simp add: det)
      next
        case False
        with old show ?thesis by (simp add: det)
      qed
    qed
  qed
  from p1 p2 show ?thesis unfolding eval_ends_inv_def by blast
qed

lemma eval_loop_ends:
  "eval_loop G powers assignment ts st = Inr st' \<Longrightarrow> eval_ends_inv st \<Longrightarrow>
   distinct ts \<Longrightarrow> set ts \<inter> dom (map_of (ev_trace st)) = {} \<Longrightarrow> eval_ends_inv st'"
proof (induction ts arbitrary: st)
  case Nil
  then show ?case by simp
next
  case (Cons t ts)
  from Cons.prems(1) obtain st1 where s1: "eval_step G powers assignment t st = Inr st1"
    and rest: "eval_loop G powers assignment ts st1 = Inr st'"
    by (auto simp: bnd_eq_Inr)
  from Cons.prems(4) have new: "map_of (ev_trace st) t = None" by auto
  from eval_step_ends [OF Cons.prems(2) s1 new] have inv1: "eval_ends_inv st1" .
  from s1 have "dom (map_of (ev_trace st1)) = insert t (dom (map_of (ev_trace st)))"
    by (auto simp: eval_step_def bnd_eq_Inr Let_def lookup_def update_conv'
             split: option.splits if_splits)
  with Cons.prems(3,4) have d: "distinct ts" and disj: "set ts \<inter> dom (map_of (ev_trace st1)) = {}"
    by auto
  from Cons.IH [OF rest inv1 d disj] show ?case .
qed

lemma eval_run_ends:
  assumes wf: "wf_graph G" and ts: "topological_sort G = Inr tasks"
    and run: "eval_run G tasks n assignment = Inr st"
  shows "eval_ends_inv st"
proof -
  from topological_sort_sound [OF wf ts] have d: "distinct tasks" by auto
  have "eval_ends_inv \<lparr>device_end_times = replicate n 0, device_energy = replicate n 0,
        ev_task_finish_times = Map.empty, ev_trace = []\<rparr>"
    by (simp add: eval_ends_inv_def)
  from eval_loop_ends [OF run [unfolded eval_run_def] this d] show ?thesis by simp
qed

text \<open>The makespan returned by \<open>evaluate_schedule\<close> is the largest simulated end time.\<close>

lemma evaluate_schedule_makespan:
  assumes wf: "wf_graph G" and ts: "topological_sort G = Inr tasks"
    and run: "eval_run G tasks n assignment = Inr st"
    and mk: "py_max (device_end_times st) = Inr mk"
    and t: "t \<in> set (task_names G)"
  shows "(\<forall>u info. map_of (ev_trace st) u = Some info \<longrightarrow> end_time info \<le> mk) \<and>
         (\<exists>u info. map_of (ev_trace st) u = Some info \<and> end_time info = mk)"
proof -
  from eval_run_ends [OF wf ts run] have e: "eval_ends_inv st" .
  from eval_run_inv [OF wf ts run] have inv: "eval_inv G n assignment st"
    and dom: "dom (map_of (ev_trace st)) = set (task_names G)" by auto
  have ub: "end_time info \<le> mk" if "map_of (ev_trace st) u = Some info" for u info
  proof -
    from e that have lt: "assigned_node info < length (device_end_times st)"
      and le: "end_time info \<le> device_end_times st ! assigned_node info"
      unfolding eval_ends_inv_def by blast+
    from lt have "device_end_times st ! assigned_node info \<in> set (device_end_times st)" by simp
    from py_max_ge [OF mk this] le show ?thesis by simp
  qed
  from dom t obtain info where info: "map_of (ev_trace st) t = Some info" by auto
  from e info have s0: "0 \<le> start_time info" unfolding eval_ends_inv_def by blast
  from inv info obtain a where "end_time info = start_time info + eval_duration a"
    unfolding eval_inv_def by blast
  with s0 eval_duration_pos [of a] have "0 < end_time info" by simp
  with ub [OF info] have "mk \<noteq> 0" by simp
  moreover from py_max_mem [OF mk] e
  have "mk = 0 \<or> (\<exists>u info. map_of (ev_trace st) u = Some info \<and> end_time info = mk)"
    unfolding eval_ends_inv_def by blast
  ultimately have "\<exists>u info. map_of (ev_trace st) u = Some info \<and> end_time info = mk" by simp
  with ub show ?thesis by blast
qed

lemma durations_equal_iff:
  "cp_task_time a = eval_duration a \<longleftrightarrow>
     exec_time a \<noteq> None \<or> comp_cost a = None \<or> comp_cost a = Some 10000"
  by (auto simp: cp_task_time_def eval_duration_def max_def split: option.splits)

lemma cp_task_time_cases:
  "cp_task_time a = (case exec_time a of Some e \<Rightarrow> max 0.1 e
                     | None \<Rightarrow> (case comp_cost a of Some c \<Rightarrow> max 0.1 (c / 1000) | None \<Rightarrow> 10))"
  by (simp add: cp_task_time_def split: option.splits)

lemma eval_duration_cases:
  "eval_duration a = (case exec_time a of Some e \<Rightarrow> max 0.1 e | None \<Rightarrow> 10)"
  by (simp add: eval_duration_def split: option.splits)

lemma qipso_durations_per_task:
  assumes wf: "wf_graph G" and ts: "topological_sort G = Inr tasks"
    and sc: "critical_scan G tasks = Inr (tt, cp0, es)"
    and run: "eval_run G tasks n assignment = Inr st"
    and u: "map_of (g_nodes G) u = Some b"
  shows "\<exists>i. map_of (ev_trace st) u = Some i \<and> tt u = Some (cp_task_time b) \<and>
             end_time i = start_time i + eval_duration b"
proof -
  from topological_sort_sound [OF wf ts] have s: "set tasks = set (task_names G)" by auto
  from u have un: "u \<in> set (task_names G)"
    by (auto simp: task_names_def dest: map_of_SomeD intro: rev_image_eqI)
  from u have nd: "node_data G u = Inr b" by (simp add: node_data_def lookup_def)
  from un s have ut: "u \<in> set tasks" by simp
  from critical_scan_times [OF sc ut nd] have tt: "tt u = Some (cp_task_time b)" .
  from eval_run_inv [OF wf ts run] have inv: "eval_inv G n assignment st"
    and dom: "dom (map_of (ev_trace st)) = set (task_names G)" by auto
  from dom un obtain i where i: "map_of (ev_trace st) u = Some i" by auto
  with inv nd have "end_time i = start_time i + eval_duration b"
    unfolding eval_inv_def by fastforce
  with i tt show ?thesis by blast
qed

text \<open>
  C10 (as stated).  In the chain \<open>default_chain\<close> no task defines \<open>exec_time\<close>, and yet
  \<open>find_critical_path\<close> and \<open>evaluate_schedule\<close> work with the same duration, 10, for
  both tasks: the default 10000/1000 of the one is the default 10 of the other.
\<close>

theorem same_durations_without_exec_time_counterexample:
  "map (\<lambda>(t, a). exec_time a) (g_nodes default_chain) = [None, None] \<and>
   topological_sort default_chain = Inr [''A'', ''B''] \<and>
   (case critical_scan default_chain [''A'', ''B''] of
      Inr (tt, cp0, es) \<Rightarrow> map tt [''A'', ''B''] = [Some 10, Some 10]
    | Inl e \<Rightarrow> False) \<and>
   (case eval_run default_chain [''A'', ''B''] 2 [''A'' \<mapsto> 0, ''B'' \<mapsto> 1] of
      Inr st \<Rightarrow> map (\<lambda>(t, i). (t, end_time i - start_time i)) (ev_trace st)
                  = [(''A'', 10), (''B'', 10)]
    | Inl e \<Rightarrow> False) \<and>
   find_critical_path default_chain [''A'', ''B''] = Inr ([''A''], 20) \<and>
   evaluate_schedule default_chain [''A'', ''B''] 2 [''A'' \<mapsto> 0, ''B'' \<mapsto> 1] = Inr (20, 22)"
  by code_simp

text \<open>
  C10 (amended).  On a valid DAG, for an assignment of every task to a node in range:
  \<open>find_critical_path\<close> builds its dictionary \<open>task_times\<close> and returns, as critical
  length, the largest earliest start plus the \<open>task_times\<close> entry of the last critical
  task; \<open>evaluate_schedule\<close> simulates every task and returns, as makespan, the largest
  simulated end time.  For a task with attributes \<open>a\<close> the entry of \<open>task_times\<close> is
  \<open>max(0.1, exec_time)\<close>, or \<open>max(0.1, comp_cost/1000)\<close> without \<open>exec_time\<close>, or 10 without
  both; the simulated task runs for \<open>max(0.1, exec_time)\<close>, or for 10 without
  \<open>exec_time\<close>.  The two durations of a task are equal exactly when the task defines
  \<open>exec_time\<close>, or has no \<open>comp_cost\<close> either, or has \<open>comp_cost = 10000\<close>; and the two
  functions work with identical durations for all tasks exactly when every task of the
  graph is of that kind, in particular when every task defines \<open>exec_time\<close>.
\<close>

theorem qipso_durations_identical_iff:
  assumes wf: "wf_graph G" and ts: "topological_sort G = Inr tasks" and n: "0 < n"
    and total: "\<forall>t \<in> set tasks. \<exists>k. assignment t = Some k \<and> k < n"
    and t: "map_of (g_nodes G) t = Some a"
  shows "\<exists>tt cp0 es cp m d st mk info.
           critical_scan G tasks = Inr (tt, cp0, es) \<and>
           py_max (map snd es) = Inr m \<and> tt (last cp) = Some d \<and>
           find_critical_path G tasks = Inr (cp, m + d) \<and>
           eval_run G tasks n assignment = Inr st \<and>
           evaluate_schedule G tasks n assignment = Inr (mk, sum_list (device_energy st)) \<and>
           (\<forall>u i. map_of (ev_trace st) u = Some i \<longrightarrow> end_time i \<le> mk) \<and>
           (\<exists>u i. map_of (ev_trace st) u = Some i \<and> end_time i = mk) \<and>
           map_of (ev_trace st) t = Some info \<and>
           tt t = Some (case exec_time a of
                          Some e \<Rightarrow> max 0.1 e
                        | None \<Rightarrow> (case comp_cost a of Some c \<Rightarrow> max 0.1 (c / 1000) | None \<Rightarrow> 10)) \<and>
           end_time info = start_time info + (case exec_time a of Some e \<Rightarrow> max 0.1 e | None \<Rightarrow> 10) \<and>
           (tt t = Some (end_time info - start_time info) \<longleftrightarrow>
              exec_time a \<noteq> None \<or> comp_cost a = None \<or> comp_cost a = Some 10000) \<and>
           ((\<forall>u \<in> set tasks. \<exists>i. map_of (ev_trace st) u = Some i \<and>
                                     tt u = Some (end_time i - start_time i)) \<longleftrightarrow>
            (\<forall>(u, b) \<in> set (g_nodes G).
                exec_time b \<noteq> None \<or> comp_cost b = None \<or> comp_cost b = Some 10000))"
proof -
  from topological_sort_sound [OF wf ts] have s: "set tasks = set (task_names G)" by auto
  from wf have dn: "distinct (map fst (g_nodes G))" by (simp add: wf_graph_def task_names_def)
  from t have tn: "t \<in> set (task_names G)"
    by (auto simp: task_names_def dest: map_of_SomeD intro: rev_image_eqI)
  with s have ne: "tasks \<noteq> []" by auto
  from find_critical_path_ok [OF wf ts ne] obtain tt cp0 es cp cl where
    sc: "critical_scan G tasks = Inr (tt, cp0, es)"
    and fc: "find_critical_path G tasks = Inr (cp, cl)" by blast
  from find_critical_path_length [OF sc fc] obtain m d where
    m: "py_max (map snd es) = Inr m" and d: "tt (last cp) = Some d" and cl: "cl = m + d" by blast
  from evaluate_schedule_ok [OF wf ts n total] obtain st mk where
    run: "eval_run G tasks n assignment = Inr st"
    and mk: "py_max (device_end_times st) = Inr mk"
    and ev: "evaluate_schedule G tasks n assignment = Inr (mk, sum_list (device_energy st))"
    by blast
  from evaluate_schedule_makespan [OF wf ts run mk tn] have
    ub: "\<forall>u i. map_of (ev_trace st) u = Some i \<longrightarrow> end_time i \<le> mk"
    and att: "\<exists>u i. map_of (ev_trace st) u = Some i \<and> end_time i = mk" by auto
  note per = qipso_durations_per_task [OF wf ts sc run]
  from per [OF t] obtain info where info: "map_of (ev_trace st) t = Some info"
    and tt: "tt t = Some (cp_task_time a)"
    and dur: "end_time info = start_time info + eval_duration a" by blast
  have tt': "tt t = Some (case exec_time a of
                          Some e \<Rightarrow> max 0.1 e
                        | None \<Rightarrow> (case comp_cost a of Some c \<Rightarrow> max 0.1 (c / 1000) | None \<Rightarrow> 10))"
    using tt by (simp only: cp_task_time_cases)
  have dur': "end_time info = start_time info + (case exec_time a of Some e \<Rightarrow> max 0.1 e | None \<Rightarrow> 10)"
    using dur by (simp only: eval_duration_cases)
  have one: "tt t = Some (end_time info - start_time info) \<longleftrightarrow>
              exec_time a \<noteq> None \<or> comp_cost a = None \<or> comp_cost a = Some 10000"
    using tt dur durations_equal_iff [of a] by simp
  have all: "(\<forall>u \<in> set tasks. \<exists>i. map_of (ev_trace st) u = Some i \<and>
                                     tt u = Some (end_time i - start_time i)) \<longleftrightarrow>
            (\<forall>(u, b) \<in> set (g_nodes G).
                exec_time b \<noteq> None \<or> comp_cost b = None \<or> comp_cost b = Some 10000)"
  proof
    assume l: "\<forall>u \<in> set tasks. \<exists>i. map_of (ev_trace st) u = Some i \<and>
                                     tt u = Some (end_time i - start_time i)"
    show "\<forall>(u, b) \<in> set (g_nodes G).
                exec_time b \<noteq> None \<or> comp_cost b = None \<or> comp_cost b = Some 10000"
    proof -
      have "exec_time b \<noteq> None \<or> comp_cost b = None \<or> comp_cost b = Some 10000"
        if ub: "(u, b) \<in> set (g_nodes G)" for u b
      proof -
        from ub dn have mu: "map_of (g_nodes G) u = Some b" by simp
        from per [OF mu] obtain i where i: "map_of (ev_trace st) u = Some i"
          and ttu: "tt u = Some (cp_task_time b)"
          and du: "end_time i = start_time i + eval_duration b" by blast
        from ub have "u \<in> set tasks" unfolding s task_names_def by (auto intro: rev_image_eqI)
        with l i have "tt u = Some (end_time i - start_time i)" by auto
        with ttu du have "cp_task_time b = eval_duration b" by simp
        with durations_equal_iff [of b] show ?thesis by simp
      qed
      then show ?thesis by auto
    qed
  next
    assume r: "\<forall>(u, b) \<in> set (g_nodes G).
                exec_time b \<noteq> None \<or> comp_cost b = None \<or> comp_cost b = Some 10000"
    show "\<forall>u \<in> set tasks. \<exists>i. map_of (ev_trace st) u = Some i \<and>
                                     tt u = Some (end_time i - start_time i)"
    proof
      fix u assume "u \<in> set tasks"
      with s have "u \<in> fst ` set (g_nodes G)" by (simp add: task_names_def)
      then obtain b where ub: "(u, b) \<in> set (g_nodes G)" by auto
      with dn have mu: "map_of (g_nodes G) u = Some b" by simp
      from per [OF mu] obtain i where i: "map_of (ev_trace st) u = Some i"
        and ttu: "tt u = Some (cp_task_time b)"
        and du: "end_time i = start_time i + eval_duration b" by blast
      from r ub have "exec_time b \<noteq> None \<or> comp_cost b = None \<or> comp_cost b = Some 10000"
        by auto
      with durations_equal_iff [of b] have "cp_task_time b = eval_duration b" by simp
      with ttu du have "tt u = Some (end_time i - start_time i)" by simp
      with i show "\<exists>i. map_of (ev_trace st) u = Some i \<and> tt u = Some (end_time i - start_time i)"
        by blast
    qed
  qed
  from sc m d fc [unfolded cl] run ev ub att info tt' dur' one all show ?thesis by blast
qed

theorem qipso_durations_identical_iff_witness:
  "wf_graph mixed_chain \<and> topological_sort mixed_chain = Inr [''A'', ''B''] \<and> (0::nat) < 2 \<and>
   [''A'' \<mapsto> 0::nat, ''B'' \<mapsto> 1] ''A'' = Some 0 \<and> [''A'' \<mapsto> 0::nat, ''B'' \<mapsto> 1] ''B'' = Some 1 \<and>
   map_of (g_nodes mixed_chain) ''B'' = Some \<lparr>exec_time = None, comp_cost = Some 5000\<rparr> \<and>
   (case critical_scan mixed_chain [''A'', ''B''] of
      Inr (tt, cp0, es) \<Rightarrow> map tt [''A'', ''B''] = [Some (1/10), Some 5]
    | Inl e \<Rightarrow> False) \<and>
   (case eval_run mixed_chain [''A'', ''B''] 2 [''A'' \<mapsto> 0, ''B'' \<mapsto> 1] of
      Inr st \<Rightarrow> map (\<lambda>(t, i). (t, end_time i - start_time i)) (ev_trace st)
                  = [(''A'', 1/10), (''B'', 10)]
    | Inl e \<Rightarrow> False) \<and>
   (\<exists>tt cp0 es cp m d st mk info.
           critical_scan mixed_chain [''A'', ''B''] = Inr (tt, cp0, es) \<and>
           py_max (map snd es) = Inr m \<and> tt (last cp) = Some d \<and>
           find_critical_path mixed_chain [''A'', ''B''] = Inr (cp, m + d) \<and>
           eval_run mixed_chain [''A'', ''B''] 2 [''A'' \<mapsto> 0, ''B'' \<mapsto> 1] = Inr st \<and>
           evaluate_schedule mixed_chain [''A'', ''B''] 2 [''A'' \<mapsto> 0, ''B'' \<mapsto> 1]
             = Inr (mk, sum_list (device_energy st)) \<and>
           (\<forall>u i. map_of (ev_trace st) u = Some i \<longrightarrow> end_time i \<le> mk) \<and>
           (\<exists>u i. map_of (ev_trace st) u = Some i \<and> end_time i = mk) \<and>
           map_of (ev_trace st) ''B'' = Some info \<and>
           tt ''B'' = Some (case exec_time \<lparr>exec_time = None, comp_cost = Some 5000\<rparr> of
                          Some e \<Rightarrow> max 0.1 e
                        | None \<Rightarrow> (case comp_cost \<lparr>exec_time = None, comp_cost = Some 5000\<rparr> of
                                     Some c \<Rightarrow> max 0.1 (c / 1000) | None \<Rightarrow> 10)) \<and>
           end_time info = start_time info +
              (case exec_time \<lparr>exec_time = None, comp_cost = Some 5000\<rparr> of
                 Some e \<Rightarrow> max 0.1 e | None \<Rightarrow> 10) \<and>
           (tt ''B'' = Some (end_time info - start_time info) \<longleftrightarrow>
              exec_time \<lparr>exec_time = None, comp_cost = Some 5000\<rparr> \<noteq> None \<or>
              comp_cost \<lparr>exec_time = None, comp_cost = Some 5000\<rparr> = None \<or>
              comp_cost \<lparr>exec_time = None, comp_cost = Some 5000\<rparr> = Some 10000) \<and>
           ((\<forall>u \<in> set [''A'', ''B'']. \<exists>i. map_of (ev_trace st) u = Some i \<and>
                                     tt u = Some (end_time i - start_time i)) \<longleftrightarrow>
            (\<forall>(u, b) \<in> set (g_nodes mixed_chain).
                exec_time b \<noteq> None \<or> comp_cost b = None \<or> comp_cost b = Some 10000)))"
proof -
  have wf: "wf_graph mixed_chain" by (simp add: wf_graph_def mixed_chain_def task_names_def)
  have ts: "topological_sort mixed_chain = Inr [''A'', ''B'']" by code_simp
  have n: "(0::nat) < 2" by simp
  have a0: "[''A'' \<mapsto> 0::nat, ''B'' \<mapsto> 1] ''A'' = Some 0" by simp
  have a1: "[''A'' \<mapsto> 0::nat, ''B'' \<mapsto> 1] ''B'' = Some 1" by simp
  have total: "\<forall>t \<in> set [''A'', ''B'']. \<exists>k. [''A'' \<mapsto> 0::nat, ''B'' \<mapsto> 1] t = Some k \<and> k < 2"
    by simp
  have t: "map_of (g_nodes mixed_chain) ''B'' = Some \<lparr>exec_time = None, comp_cost = Some 5000\<rparr>"
    by (simp add: mixed_chain_def)
  have c1: "(case critical_scan mixed_chain [''A'', ''B''] of
      Inr (tt, cp0, es) \<Rightarrow> map tt [''A'', ''B''] = [Some (1/10), Some 5]
    | Inl e \<Rightarrow> False)" by code_simp
  have c2: "(case eval_run mixed_chain [''A'', ''B''] 2 [''A'' \<mapsto> 0, ''B'' \<mapsto> 1] of
      Inr st \<Rightarrow> map (\<lambda>(t, i). (t, end_time i - start_time i)) (ev_trace st)
                  = [(''A'', 1/10), (''B'', 10)]
    | Inl e \<Rightarrow> False)" by code_simp
  note inst = qipso_durations_identical_iff [OF wf ts n total t]
  show ?thesis
    by (intro conjI wf ts n a0 a1 t c1 c2 inst)
qed

section \<open>Construction of the optimizer\<close>

lemma QIPSO_init_negative_particles:
  "n_particles < 0 \<Longrightarrow> isl (QIPSO_init G num_edge_nodes n_particles n_iter cw sw mutation)"
  by (auto simp: QIPSO_init_def bnd_def split: sum.splits error.splits prod.splits)

lemma QIPSO_init_valid:
  assumes wf: "wf_graph G" and ac: "acyclic (edge_rel G)" and ne: "g_nodes G \<noteq> []"
    and n: "1 \<le> num_edge_nodes" and mu: "0 \<le> mutation" "mutation \<le> 1"
  shows "(n_particles < 0 \<longrightarrow>
            QIPSO_init G num_edge_nodes n_particles n_iter cw sw mutation
              = Inl (ValueError ''negative dimensions are not allowed'')) \<and>
         (0 \<le> n_particles \<longrightarrow>
            \<not> isl (QIPSO_init G num_edge_nodes n_particles n_iter cw sw mutation))"
proof -
  from topological_sort_complete [OF wf ac] obtain tasks where
    ts: "topological_sort G = Inr tasks" by blast
  from topological_sort_sound [OF wf ts] have s: "set tasks = set (task_names G)" by auto
  from ne have "set (task_names G) \<noteq> {}" by (simp add: task_names_def)
  with s have "tasks \<noteq> []" by auto
  from find_critical_path_ok [OF wf ts this] obtain cp cl where
    "find_critical_path G tasks = Inr (cp, cl)" by blast
  with ts n mu show ?thesis by (simp add: QIPSO_init_def)
qed

text \<open>
  C4 (as stated).  With a particle count of 0, and likewise with an iteration count of
  0 or below, the constructor returns an optimizer.
\<close>

theorem QIPSO_init_zero_counts_counterexample:
  "\<not> isl (QIPSO_init chain2 2 0 200 1.7 1.7 0.3) \<and>
   \<not> isl (QIPSO_init chain2 2 50 0 1.7 1.7 0.3) \<and>
   \<not> isl (QIPSO_init chain2 2 50 (-5) 1.7 1.7 0.3)"
  by code_simp

text \<open>
  C4 (amended).  Constructing the optimizer raises whenever the node count is below 1,
  the mutation probability lies outside [0,1], the graph has a cycle, or the particle
  count is below 0.  The first three are the constructor's own checks, made in this
  order before the critical path is computed, each with its \<open>ValueError\<close>; a negative
  particle count is refused by \<open>np.random.uniform\<close> when the quantum bits are drawn,
  again with a \<open>ValueError\<close>.  The iteration count is never looked at, and a particle
  count of 0 is a valid dimension: on an acyclic graph with at least one task, with at
  least one node and a mutation probability in [0,1], construction succeeds for every
  particle count from 0 on and every iteration count.
\<close>

theorem QIPSO_init_raises:
  assumes "wf_graph G"
  shows "(num_edge_nodes < 1 \<longrightarrow>
            QIPSO_init G num_edge_nodes n_particles n_iter cw sw mutation
              = Inl (ValueError ''Must have at least 1 edge node'')) \<and>
         (1 \<le> num_edge_nodes \<and> (mutation < 0 \<or> mutation > 1) \<longrightarrow>
            QIPSO_init G num_edge_nodes n_particles n_iter cw sw mutation
              = Inl (ValueError ''Mutation probability must be between 0 and 1'')) \<and>
         (1 \<le> num_edge_nodes \<and> 0 \<le> mutation \<and> mutation \<le> 1 \<and> \<not> acyclic (edge_rel G) \<longrightarrow>
            QIPSO_init G num_edge_nodes n_particles n_iter cw sw mutation
              = Inl (ValueError ''Graph contains cycles - must be a DAG'')) \<and>
         (1 \<le> num_edge_nodes \<and> 0 \<le> mutation \<and> mutation \<le> 1 \<and> acyclic (edge_rel G) \<and>
          g_nodes G \<noteq> [] \<and> n_particles < 0 \<longrightarrow>
            QIPSO_init G num_edge_nodes n_particles n_iter cw sw mutation
              = Inl (ValueError ''negative dimensions are not allowed'')) \<and>
         (num_edge_nodes < 1 \<or> mutation < 0 \<or> mutation > 1 \<or> \<not> acyclic (edge_rel G) \<or>
          n_particles < 0 \<longrightarrow>
            isl (QIPSO_init G num_edge_nodes n_particles n_iter cw sw mutation)) \<and>
         (1 \<le> num_edge_nodes \<and> 0 \<le> mutation \<and> mutation \<le> 1 \<and> acyclic (edge_rel G) \<and>
          g_nodes G \<noteq> [] \<and> 0 \<le> n_particles \<longrightarrow>
            \<not> isl (QIPSO_init G num_edge_nodes n_particles n_iter cw sw mutation))"
proof (intro conjI impI)
  assume "num_edge_nodes < 1"
  then show "QIPSO_init G num_edge_nodes n_particles n_iter cw sw mutation
              = Inl (ValueError ''Must have at least 1 edge node'')"
    by (simp add: QIPSO_init_def)
next
  assume "1 \<le> num_edge_nodes \<and> (mutation < 0 \<or> mutation > 1)"
  then show "QIPSO_init G num_edge_nodes n_particles n_iter cw sw mutation
              = Inl (ValueError ''Mutation probability must be between 0 and 1'')"
    by (auto simp: QIPSO_init_def)
next
  assume "1 \<le> num_edge_nodes \<and> 0 \<le> mutation \<and> mutation \<le> 1 \<and> \<not> acyclic (edge_rel G)"
  with topological_sort_cyclic [OF assms]
  show "QIPSO_init G num_edge_nodes n_particles n_iter cw sw mutation
              = Inl (ValueError ''Graph contains cycles - must be a DAG'')"
    by (auto simp: QIPSO_init_def)
next
  assume "1 \<le> num_edge_nodes \<and> 0 \<le> mutation \<and> mutation \<le> 1 \<and> acyclic (edge_rel G) \<and>
          g_nodes G \<noteq> [] \<and> n_particles < 0"
  with QIPSO_init_valid [OF assms, of num_edge_nodes mutation n_particles n_iter cw sw]
  show "QIPSO_init G num_edge_nodes n_particles n_iter cw sw mutation
              = Inl (ValueError ''negative dimensions are not allowed'')"
    by simp
next
  assume a: "num_edge_nodes < 1 \<or> mutation < 0 \<or> mutation > 1 \<or> \<not> acyclic (edge_rel G) \<or>
          n_particles < 0"
  show "isl (QIPSO_init G num_edge_nodes n_particles n_iter cw sw mutation)"
  proof (cases "n_particles < 0")
    case True
    then show ?thesis by (rule QIPSO_init_negative_particles)
  next
    case False
    with a topological_sort_cyclic [OF assms] show ?thesis
      by (auto simp: QIPSO_init_def)
  qed
next
  assume "1 \<le> num_edge_nodes \<and> 0 \<le> mutation \<and> mutation \<le> 1 \<and> acyclic (edge_rel G) \<and>
          g_nodes G \<noteq> [] \<and> 0 \<le> n_particles"
  with QIPSO_init_valid [OF assms, of num_edge_nodes mutation n_particles n_iter cw sw]
  show "\<not> isl (QIPSO_init G num_edge_nodes n_particles n_iter cw sw mutation)"
    by simp
qed

theorem QIPSO_init_raises_witness:
  "wf_graph two_cycle \<and> \<not> acyclic (edge_rel two_cycle) \<and>
   QIPSO_init two_cycle 0 50 200 1.7 1.7 0.3 = Inl (ValueError ''Must have at least 1 edge node'') \<and>
   QIPSO_init two_cycle 2 50 200 1.7 1.7 1.5
     = Inl (ValueError ''Mutation probability must be between 0 and 1'') \<and>
   QIPSO_init two_cycle 2 50 200 1.7 1.7 0.3
     = Inl (ValueError ''Graph contains cycles - must be a DAG'') \<and>
   isl (QIPSO_init two_cycle 2 50 200 1.7 1.7 0.3) \<and>
   wf_graph diamond \<and> acyclic (edge_rel diamond) \<and> g_nodes diamond \<noteq> [] \<and>
   QIPSO_init diamond 2 (-1) 200 1.7 1.7 0.3
     = Inl (ValueError ''negative dimensions are not allowed'') \<and>
   isl (QIPSO_init diamond 2 (-1) 200 1.7 1.7 0.3) \<and>
   \<not> isl (QIPSO_init diamond 2 0 0 1.7 1.7 0.3)"
proof -
  from topological_sort_acyclic [OF diamond_wf diamond_sort]
  have ac: "acyclic (edge_rel diamond)" .
  have ne: "g_nodes diamond \<noteq> []" by (simp add: diamond_def)
  show ?thesis
    using QIPSO_init_raises [OF two_cycle_wf, where num_edge_nodes = 0 and n_particles = 50
            and n_iter = 200 and cw = "1.7" and sw = "1.7" and mutation = "0.3"]
          QIPSO_init_raises [OF two_cycle_wf, where num_edge_nodes = 2 and n_particles = 50
            and n_iter = 200 and cw = "1.7" and sw = "1.7" and mutation = "1.5"]
          QIPSO_init_raises [OF two_cycle_wf, where num_edge_nodes = 2 and n_particles = 50
            and n_iter = 200 and cw = "1.7" and sw = "1.7" and mutation = "0.3"]
          QIPSO_init_raises [OF diamond_wf, where num_edge_nodes = 2 and n_particles = "-1"
            and n_iter = 200 and cw = "1.7" and sw = "1.7" and mutation = "0.3"]
          QIPSO_init_raises [OF diamond_wf, where num_edge_nodes = 2 and n_particles = 0
            and n_iter = 0 and cw = "1.7" and sw = "1.7" and mutation = "0.3"]
          two_cycle_cyclic two_cycle_wf diamond_wf ac ne
    by simp
qed

end
